theory Spec2Isabelle
  imports Complex_Main "HOL-Library.Sublist"
begin

section \<open>Strings\<close>

text \<open>
  A JavaScript string is modelled as a \<^typ>\<open>string\<close>: one \<^typ>\<open>char\<close> per code
  unit, read as a Latin-1 code point (0..255). On that range \<open>toLowerCase\<close>
  keeps the length of the string, \<open>trim\<close> removes the seven white space code points
  listed below, and \<open>a[i]\<close> is \<open>a ! i\<close>. Beyond that range \<open>toLowerCase\<close> can
  lengthen a string, so a length that the code takes after lower-casing is stated as
  the length of the lower-cased string.
\<close>

definition isUpperChar :: "char \<Rightarrow> bool" where
  "isUpperChar c =
     (let n = (of_char c :: nat)
      in (65 \<le> n \<and> n \<le> 90) \<or> (192 \<le> n \<and> n \<le> 222 \<and> n \<noteq> 215))"

definition toLowerChar :: "char \<Rightarrow> char" where
  "toLowerChar c = (if isUpperChar c then char_of ((of_char c :: nat) + 32) else c)"

definition toLowerCase :: "string \<Rightarrow> string" where
  "toLowerCase s = map toLowerChar s"

definition isWhiteSpace :: "char \<Rightarrow> bool" where
  "isWhiteSpace c =
     (let n = (of_char c :: nat)
      in (9 \<le> n \<and> n \<le> 13) \<or> n = 32 \<or> n = 160)"

definition trim :: "string \<Rightarrow> string" where
  "trim s = rev (dropWhile isWhiteSpace (rev (dropWhile isWhiteSpace s)))"

text \<open>\<open>t.includes(q)\<close>: \<open>q\<close> occurs in \<open>t\<close> at some position.\<close>

fun str_includes :: "string \<Rightarrow> string \<Rightarrow> bool" where
  "str_includes [] q = (q = [])"
| "str_includes (c # t) q = (prefix q (c # t) \<or> str_includes t q)"

text \<open>\<open>s.split(",")\<close>: the pieces between commas; never the empty list.\<close>

fun split_comma :: "string \<Rightarrow> string list" where
  "split_comma [] = [[]]"
| "split_comma (c # s) =
     (if c = CHR '','' then [] # split_comma s
      else (case split_comma s of
              [] \<Rightarrow> [[c]]
            | p # ps \<Rightarrow> (c # p) # ps))"

section \<open>Fuzzy helpers\<close>

subsection \<open>levenshtein\<close>

type_synonym matrix = "nat list list"

definition setCell :: "matrix \<Rightarrow> nat \<Rightarrow> nat \<Rightarrow> nat \<Rightarrow> matrix" where
  \<comment> \<open>\<open>matrix[i][j] = v\<close>\<close>
  "setCell m i j v = m[i := (m ! i)[j := v]]"

definition initColumn :: "nat \<Rightarrow> matrix \<Rightarrow> matrix" where
  \<comment> \<open>\<open>for (let i = 0; i <= a.length; i++) matrix[i][0] = i\<close>\<close>
  "initColumn la m = fold (\<lambda>i m. setCell m i 0 i) [0..<Suc la] m"

definition initRow :: "nat \<Rightarrow> matrix \<Rightarrow> matrix" where
  \<comment> \<open>\<open>for (let j = 0; j <= b.length; j++) matrix[0][j] = j\<close>\<close>
  "initRow lb m = fold (\<lambda>j m. setCell m 0 j j) [0..<Suc lb] m"

definition fillCell :: "string \<Rightarrow> string \<Rightarrow> nat \<Rightarrow> nat \<Rightarrow> matrix \<Rightarrow> matrix" where
  \<comment> \<open>the body of the inner loop\<close>
  "fillCell a b i j m =
     (let cost = (if a ! (i - 1) = b ! (j - 1) then 0 else 1)
      in setCell m i j
           (min (m ! (i - 1) ! j + 1)
              (min (m ! i ! (j - 1) + 1) (m ! (i - 1) ! (j - 1) + cost))))"

definition fillRow :: "string \<Rightarrow> string \<Rightarrow> nat \<Rightarrow> matrix \<Rightarrow> matrix" where
  \<comment> \<open>\<open>for (let j = 1; j <= b.length; j++)\<close>\<close>
  "fillRow a b i m = fold (fillCell a b i) [1..<Suc (length b)] m"

definition fillMatrix :: "string \<Rightarrow> string \<Rightarrow> matrix \<Rightarrow> matrix" where
  \<comment> \<open>\<open>for (let i = 1; i <= a.length; i++)\<close>\<close>
  "fillMatrix a b m = fold (fillRow a b) [1..<Suc (length a)] m"

definition levenshtein :: "string \<Rightarrow> string \<Rightarrow> nat" where
  "levenshtein a b =
     (if a = [] then length b
      else if b = [] then length a
      else
        (let a = toLowerCase a;
             b = toLowerCase b;
             matrix = replicate (length a + 1) (replicate (length b + 1) 0);
             matrix = initColumn (length a) matrix;
             matrix = initRow (length b) matrix;
             matrix = fillMatrix a b matrix
         in matrix ! length a ! length b))"

text \<open>
  The table the loops compute, as a recurrence on the two prefix lengths: one
  insertion, deletion or substitution costs 1.
\<close>

fun lev_table :: "string \<Rightarrow> string \<Rightarrow> nat \<Rightarrow> nat \<Rightarrow> nat" where
  "lev_table a b 0 j = j"
| "lev_table a b (Suc i) 0 = Suc i"
| "lev_table a b (Suc i) (Suc j) =
     min (lev_table a b i (Suc j) + 1)
       (min (lev_table a b (Suc i) j + 1)
          (lev_table a b i j + (if a ! i = b ! j then 0 else 1)))"

subsection \<open>scoreMatch\<close>

text \<open>
  A score is \<open>Infinity\<close> or the quotient of two small natural numbers. The quotient is
  kept exact (a rational): two different quotients \<open>d / l\<close> of string lengths round to
  different doubles, and \<open>d / l < 0.4\<close> holds for the doubles exactly when it holds
  for the rationals, as long as the strings are shorter than \<open>2^26\<close> code units.
\<close>

datatype score = Finite rat | Infinity

text \<open>
  The order of the comparator \<open>(a, b) => a.score - b.score\<close>: finite scores by
  value, every finite score before \<open>Infinity\<close>, and two \<open>Infinity\<close> scores tie
  (their difference is \<open>NaN\<close>, which \<open>sort\<close> reads as \<open>+0\<close>).
\<close>

instantiation score :: linorder
begin

fun less_eq_score :: "score \<Rightarrow> score \<Rightarrow> bool" where
  "less_eq_score (Finite x) (Finite y) = (x \<le> y)"
| "less_eq_score (Finite x) Infinity = True"
| "less_eq_score Infinity (Finite y) = False"
| "less_eq_score Infinity Infinity = True"

definition less_score :: "score \<Rightarrow> score \<Rightarrow> bool" where
  "less_score a b = (a \<le> b \<and> \<not> b \<le> a)"

instance
proof
  fix x y z :: score
  show "(x < y) = (x \<le> y \<and> \<not> y \<le> x)"
    by (simp add: less_score_def)
  show "x \<le> x"
    by (cases x) simp_all
  show "x \<le> y \<Longrightarrow> y \<le> z \<Longrightarrow> x \<le> z"
    by (cases x; cases y; cases z) simp_all
  show "x \<le> y \<Longrightarrow> y \<le> x \<Longrightarrow> x = y"
    by (cases x; cases y) simp_all
  show "x \<le> y \<or> y \<le> x"
    by (cases x; cases y) auto
qed

end

definition isFinite :: "score \<Rightarrow> bool" where
  "isFinite x = (case x of Finite _ \<Rightarrow> True | Infinity \<Rightarrow> False)"

definition scoreMatch :: "string \<Rightarrow> string \<Rightarrow> score" where
  "scoreMatch query target =
     (let q = toLowerCase (trim query);
          t = toLowerCase (trim target)
      in if q = [] \<or> t = [] then Infinity
         else if str_includes t q then Finite 0
         else
           (let dist = levenshtein q t
            in Finite (of_nat dist / of_nat (max (length t) 1))))"

section \<open>Data functions\<close>

text \<open>
  A meal summary as the filter and random endpoints return it; a missing thumbnail is the
  empty string.
\<close>

record meal =
  idMeal :: string
  strMeal :: string
  strMealThumb :: string

text \<open>
  A JavaScript \<open>Map\<close> with string keys: an association list in insertion order with
  one entry per key. \<open>set\<close> on a present key replaces the value where the key stands.
\<close>

type_synonym 'v js_map = "(string \<times> 'v) list"

fun js_map_set :: "'v js_map \<Rightarrow> string \<Rightarrow> 'v \<Rightarrow> 'v js_map" where
  "js_map_set [] k v = [(k, v)]"
| "js_map_set ((k', v') # m) k v =
     (if k' = k then (k, v) # m else (k', v') # js_map_set m k v)"

text \<open>
  The module-level \<open>cache\<close>, without its \<open>lookup\<close> store (details by id), which the
  search does not touch.
\<close>

datatype kind = Ingredient | Category | Area

record cache =
  ingredient :: "meal list js_map"
  category :: "meal list js_map"
  area :: "meal list js_map"

fun cache_store :: "cache \<Rightarrow> kind \<Rightarrow> meal list js_map" where
  \<comment> \<open>\<open>cache[kind]\<close>\<close>
  "cache_store c Ingredient = ingredient c"
| "cache_store c Category = category c"
| "cache_store c Area = area c"

fun cache_store_update :: "cache \<Rightarrow> kind \<Rightarrow> meal list js_map \<Rightarrow> cache" where
  "cache_store_update c Ingredient s = c\<lparr>ingredient := s\<rparr>"
| "cache_store_update c Category s = c\<lparr>category := s\<rparr>"
| "cache_store_update c Area s = c\<lparr>area := s\<rparr>"

text \<open>
  The three filter URLs of \<open>API\<close>, by their parameter. What the remote side answers
  to one request is a \<open>response\<close>: a failure (\<open>fetch\<close> rejects, the status is not
  ok, or the body is not JSON), or a JSON envelope whose \<open>meals\<close> is an array or
  \<open>null\<close>/absent. A \<open>network\<close> gives the answer to each URL during one search.
\<close>

datatype url = FilterByIngredient string | FilterByCategory string | FilterByArea string

datatype response = NetworkError | Json "meal list option"

type_synonym network = "url \<Rightarrow> response"

datatype message =
    NoMessage \<comment> \<open>\<open>""\<close>\<close>
  | SomethingWentWrong \<comment> \<open>\<open>"Something went wrong. Please try again."\<close>\<close>
  | NoRecipesFound \<comment> \<open>\<open>"No recipes found. Try different filters."\<close>\<close>
  | DidYouMean string string \<comment> \<open>\<open>`No results for "${queryTerm}". Did you mean "${best.s}"? ...`\<close>\<close>

text \<open>
  The state of \<open>App\<close> that the search reads or writes, the module-level \<open>cache\<close>,
  and \<open>requests\<close>: the URLs passed to \<open>fetch\<close> so far, oldest first.
\<close>

record app =
  ingredientInput :: string
  selectedCategory :: string
  selectedArea :: string
  categories :: "string list"
  areas :: "string list"
  trending :: "meal list"
  results :: "meal list"
  loading :: bool
  error :: message
  showSuggestions :: bool
  page :: nat
  hasSearched :: bool
  cache :: cache
  requests :: "url list"

definition fetchJSON :: "network \<Rightarrow> url \<Rightarrow> app \<Rightarrow> response \<times> app" where
  \<comment> \<open>\<open>NetworkError\<close> is the thrown error\<close>
  "fetchJSON net u st = (net u, st\<lparr>requests := requests st @ [u]\<rparr>)"

text \<open>
  \<open>fetchListCached\<close> is an async function. Up to its \<open>await\<close> it runs at once: the cache
  is read and, on a miss, the request is issued (\<open>fetchListCached_start\<close>). What
  follows the \<open>await\<close> runs when the response has arrived (\<open>fetchListCached_finish\<close>).
\<close>

datatype pending = Done "meal list" | Awaiting response

definition fetchListCached_start ::
  "network \<Rightarrow> kind \<Rightarrow> string \<Rightarrow> url \<Rightarrow> app \<Rightarrow> pending \<times> app" where
  "fetchListCached_start net kind key u st =
     (let store = cache_store (cache st) kind
      in case map_of store key of
           Some v \<Rightarrow> (Done v, st)
         | None \<Rightarrow> (case fetchJSON net u st of (r, st') \<Rightarrow> (Awaiting r, st')))"

definition fetchListCached_finish ::
  "kind \<Rightarrow> string \<Rightarrow> pending \<Rightarrow> app \<Rightarrow> meal list option \<times> app" where
  "fetchListCached_finish kind key p st =
     (case p of
        Done v \<Rightarrow> (Some v, st)
      | Awaiting NetworkError \<Rightarrow> (None, st)
      | Awaiting (Json data) \<Rightarrow>
          (let meals = (case data of Some ms \<Rightarrow> ms | None \<Rightarrow> []);
               store = cache_store (cache st) kind
           in (Some meals,
               st\<lparr>cache := cache_store_update (cache st) kind (js_map_set store key meals)\<rparr>)))"

definition fetchListCached ::
  "network \<Rightarrow> kind \<Rightarrow> string \<Rightarrow> url \<Rightarrow> app \<Rightarrow> meal list option \<times> app" where
  \<comment> \<open>one awaited call; \<open>None\<close> is the thrown error\<close>
  "fetchListCached net kind key u st =
     (case fetchListCached_start net kind key u st of
        (p, st') \<Rightarrow> fetchListCached_finish kind key p st')"

fun intersectById :: "meal list list \<Rightarrow> meal list" where
  "intersectById [] = []"
| "intersectById (first # rest) =
     fold (\<lambda>curr acc. filter (\<lambda>m. idMeal m \<in> set (map idMeal curr)) acc) rest first"

section \<open>App\<close>

definition set_add :: "string list \<Rightarrow> string \<Rightarrow> string list" where
  \<comment> \<open>\<open>names.add(x)\<close> on a \<open>Set\<close> kept in insertion order\<close>
  "set_add names x = (if x \<in> set names then names else names @ [x])"

definition buildSourceList :: "app \<Rightarrow> string list" where
  "buildSourceList st =
     (let names = [];
          names = fold (\<lambda>t names. set_add names (strMeal t)) (trending st) names;
          names = fold (\<lambda>c names. set_add names c) (categories st) names;
          names = fold (\<lambda>a names. set_add names a) (areas st) names;
          names = fold (\<lambda>(k, _) names. set_add names k) (ingredient (cache st)) names;
          names = fold (\<lambda>p names. set_add names p)
                    [''biryani'', ''pasta'', ''pizza'', ''curry'', ''salad'', ''fried rice'']
                    names
      in names)"

text \<open>
  \<open>sort((a, b) => a.score - b.score)\<close> is a stable sort by score:
  \<^const>\<open>sort_key\<close> on the second component.
\<close>

definition getSuggestions :: "app \<Rightarrow> string \<Rightarrow> string list" where
  "getSuggestions st query =
     (if query = [] \<or> length (trim query) < 1 then []
      else
        (let src = buildSourceList st;
             scored = map (\<lambda>s. (s, scoreMatch query s)) src;
             scored = filter (\<lambda>x. isFinite (snd x)) scored;
             scored = sort_key snd scored;
             scored = take 6 scored
         in map fst scored))"

text \<open>
  Deduplication through a \<open>Map\<close> keyed by id, as \<open>handleSearch\<close> and the trending
  loaders do it: an id keeps the place of its first record and the value of its last.
\<close>

definition dedupById :: "meal list \<Rightarrow> meal list" where
  \<comment> \<open>\<open>merged.forEach((m) => map.set(m.idMeal, m)); Array.from(map.values())\<close>\<close>
  "dedupById merged = map snd (fold (\<lambda>m mp. js_map_set mp (idMeal m) m) merged [])"

text \<open>
  The trending loader that runs on mount, given the responses of its random picks: any
  failure leaves the empty list, otherwise the picks are merged and deduplicated.
\<close>

definition loadTrending :: "response list \<Rightarrow> app \<Rightarrow> app" where
  "loadTrending packs st =
     (if NetworkError \<in> set packs then st\<lparr>trending := []\<rparr>
      else
        (let merged = concat (map (\<lambda>p. case p of Json (Some ms) \<Rightarrow> ms | _ \<Rightarrow> []) packs)
         in st\<lparr>trending := dedupById merged\<rparr>))"

subsection \<open>handleSearch\<close>

text \<open>
  \<open>Promise.all(ingredients.map(...))\<close>: every call of \<open>fetchListCached\<close> is started, in
  order, before any response is handled; then each call finishes. A failed call rejects
  the whole; the other calls still finish and store what they fetched. The calls are
  taken to finish in the order they were started; another order changes only the order
  in which new keys enter the ingredient store.
\<close>

fun start_all :: "network \<Rightarrow> string list \<Rightarrow> app \<Rightarrow> pending list \<times> app" where
  "start_all net [] st = ([], st)"
| "start_all net (ing # ings) st =
     (let key = toLowerCase ing
      in case fetchListCached_start net Ingredient key (FilterByIngredient key) st of
           (p, st') \<Rightarrow> (case start_all net ings st' of (ps, st'') \<Rightarrow> (p # ps, st'')))"

fun finish_all :: "string list \<Rightarrow> pending list \<Rightarrow> app \<Rightarrow> meal list option list \<times> app" where
  "finish_all (ing # ings) (p # ps) st =
     (case fetchListCached_finish Ingredient (toLowerCase ing) p st of
        (r, st') \<Rightarrow> (case finish_all ings ps st' of (rs, st'') \<Rightarrow> (r # rs, st'')))"
| "finish_all _ _ st = ([], st)"

definition fetchIngredientLists ::
  "network \<Rightarrow> string list \<Rightarrow> app \<Rightarrow> meal list list option \<times> app" where
  "fetchIngredientLists net ingredients st =
     (case start_all net ingredients st of
        (ps, st') \<Rightarrow>
          (case finish_all ingredients ps st' of
             (rs, st'') \<Rightarrow>
               (if None \<in> set rs then (None, st'') else (Some (map the rs), st''))))"

definition parseIngredients :: "string \<Rightarrow> string list" where
  \<comment> \<open>\<open>queryTerm.split(",").map((s) => s.trim()).filter(Boolean)\<close>\<close>
  "parseIngredients queryTerm = filter (\<lambda>s. s \<noteq> []) (map trim (split_comma queryTerm))"

text \<open>
  The three \<open>if\<close> blocks that push onto \<open>lists\<close>, in the order of the source; \<open>None\<close>
  is the thrown error, which skips the rest of the \<open>try\<close> block.
\<close>

definition pushIngredientLists ::
  "network \<Rightarrow> string list \<Rightarrow> meal list list \<Rightarrow> app \<Rightarrow> meal list list option \<times> app" where
  \<comment> \<open>\<open>if (ingredients.length) { ... lists.push(intersectById(ingredientLists)); }\<close>\<close>
  "pushIngredientLists net ingredients the_lists st =
     (if ingredients \<noteq> []
      then (case fetchIngredientLists net ingredients st of
              (None, st1) \<Rightarrow> (None, st1)
            | (Some ingredientLists, st1) \<Rightarrow>
                (Some (the_lists @ [intersectById ingredientLists]), st1))
      else (Some the_lists, st))"

definition pushCategoryList ::
  "network \<Rightarrow> string \<Rightarrow> meal list list \<Rightarrow> app \<Rightarrow> meal list list option \<times> app" where
  \<comment> \<open>\<open>if (selectedCategory) { const key = selectedCategory; lists.push(await ...); }\<close>\<close>
  "pushCategoryList net selected the_lists st =
     (if selected \<noteq> []
      then (let key = selected
            in case fetchListCached net Category key (FilterByCategory key) st of
                 (None, st1) \<Rightarrow> (None, st1)
               | (Some l, st1) \<Rightarrow> (Some (the_lists @ [l]), st1))
      else (Some the_lists, st))"

definition pushAreaList ::
  "network \<Rightarrow> string \<Rightarrow> meal list list \<Rightarrow> app \<Rightarrow> meal list list option \<times> app" where
  \<comment> \<open>\<open>if (selectedArea) { const key = selectedArea; lists.push(await ...); }\<close>\<close>
  "pushAreaList net selected the_lists st =
     (if selected \<noteq> []
      then (let key = selected
            in case fetchListCached net Area key (FilterByArea key) st of
                 (None, st1) \<Rightarrow> (None, st1)
               | (Some l, st1) \<Rightarrow> (Some (the_lists @ [l]), st1))
      else (Some the_lists, st))"

definition gatherLists :: "network \<Rightarrow> string \<Rightarrow> app \<Rightarrow> meal list list option \<times> app" where
  \<comment> \<open>the \<open>try\<close> block down to the last \<open>lists.push\<close>\<close>
  "gatherLists net queryTerm st =
     (let ingredients = parseIngredients queryTerm;
          the_lists = []
      in case pushIngredientLists net ingredients the_lists st of
           (None, st1) \<Rightarrow> (None, st1)
         | (Some the_lists, st1) \<Rightarrow>
             (case pushCategoryList net (selectedCategory st) the_lists st1 of
                (None, st2) \<Rightarrow> (None, st2)
              | (Some the_lists, st2) \<Rightarrow>
                  pushAreaList net (selectedArea st) the_lists st2))"

definition mergeLists :: "meal list list \<Rightarrow> meal list \<Rightarrow> meal list" where
  \<comment> \<open>\<open>let merged = []; if (!lists.length) ... else if (lists.length === 1) ... else ...\<close>\<close>
  "mergeLists the_lists trending_now =
     (if the_lists = [] then trending_now
      else if length the_lists = 1 then the_lists ! 0
      else intersectById the_lists)"

definition noResultsMessage :: "string list \<Rightarrow> string \<Rightarrow> message" where
  \<comment> \<open>the branch \<open>if (!deduped.length)\<close>, with \<open>src = buildSourceList()\<close>\<close>
  "noResultsMessage src queryTerm =
     (let scored = map (\<lambda>s. (s, scoreMatch queryTerm s)) src;
          scored = sort_key snd scored
      in case scored of
           [] \<Rightarrow> NoRecipesFound
         | best # _ \<Rightarrow>
             (if snd best < Finite (2 / 5) \<and> toLowerCase (fst best) \<noteq> toLowerCase queryTerm
              then DidYouMean queryTerm (fst best)
              else NoRecipesFound))"

definition beginSearch :: "app \<Rightarrow> app" where
  \<comment> \<open>the five assignments before the \<open>try\<close> block\<close>
  "beginSearch st =
     st\<lparr>page := 1, error := NoMessage, loading := True,
        hasSearched := True, showSuggestions := False\<rparr>"

definition queryTermOf :: "string option \<Rightarrow> app \<Rightarrow> string" where
  \<comment> \<open>\<open>term !== null ? term : ingredientInput\<close>; \<open>None\<close> is \<open>null\<close>, the default\<close>
  "queryTermOf term st = (case term of Some t \<Rightarrow> t | None \<Rightarrow> ingredientInput st)"

definition handleSearch :: "network \<Rightarrow> string option \<Rightarrow> app \<Rightarrow> app" where
  "handleSearch net term st =
     (let queryTerm = queryTermOf term st;
          st0 = beginSearch st;
          st' = (case gatherLists net queryTerm st0 of
                   (None, st1) \<Rightarrow> st1\<lparr>error := SomethingWentWrong\<rparr>
                 | (Some the_lists, st1) \<Rightarrow>
                     (let merged = mergeLists the_lists (trending st1);
                          deduped = dedupById merged;
                          st2 = st1\<lparr>results := deduped\<rparr>
                      in if deduped = []
                         then st2\<lparr>error := noResultsMessage (buildSourceList st2) queryTerm\<rparr>
                         else st2))
      in st'\<lparr>loading := False\<rparr>)"

section \<open>Example data\<close>

text \<open>
  Three meal summaries (the first and the third share an id), the empty cache, and the
  state of \<open>App\<close> right after mounting: every \<open>useState\<close> at its initial value.
\<close>

definition soup :: meal where
  "soup = \<lparr>idMeal = ''1'', strMeal = ''Soup'', strMealThumb = ''''\<rparr>"

definition stew :: meal where
  "stew = \<lparr>idMeal = ''2'', strMeal = ''Stew'', strMealThumb = ''''\<rparr>"

definition broth :: meal where
  "broth = \<lparr>idMeal = ''1'', strMeal = ''Broth'', strMealThumb = ''''\<rparr>"

definition empty_cache :: cache where
  "empty_cache = \<lparr>ingredient = [], category = [], area = []\<rparr>"

definition initial_app :: app where
  "initial_app =
     \<lparr>ingredientInput = '''', selectedCategory = '''', selectedArea = '''',
      categories = [], areas = [], trending = [], results = [], loading = False,
      error = NoMessage, showSuggestions = False, page = 1, hasSearched = False,
      cache = empty_cache, requests = []\<rparr>"

section \<open>Auxiliary predicates\<close>

text \<open>
  \<open>dims m la lb\<close>: the matrix has \<open>la + 1\<close> rows of \<open>lb + 1\<close> cells.
  \<open>tab a b m i j\<close>: the border and every cell before row \<open>i\<close>, column \<open>j\<close> (in
  the order of the loops) hold the value of the recurrence.
\<close>

definition dims :: "matrix \<Rightarrow> nat \<Rightarrow> nat \<Rightarrow> bool" where
  "dims m la lb = (length m = Suc la \<and> (\<forall>r\<le>la. length (m ! r) = Suc lb))"

definition tab :: "string \<Rightarrow> string \<Rightarrow> matrix \<Rightarrow> nat \<Rightarrow> nat \<Rightarrow> bool" where
  "tab a b m i j =
     (dims m (length a) (length b) \<and>
      (\<forall>r c. r \<le> length a \<longrightarrow> c \<le> length b \<longrightarrow>
         (r = 0 \<or> c = 0 \<or> r < i \<or> (r = i \<and> c < j)) \<longrightarrow> m ! r ! c = lev_table a b r c))"

text \<open>
  \<open>search_effect net KI KC KA ok st st'\<close>: from \<open>st\<close> to \<open>st'\<close> only the cache and the
  request log have changed; the log has grown by requests for ingredient keys in \<open>KI\<close>,
  category keys in \<open>KC\<close> and area keys in \<open>KA\<close>; each store has kept its keys and gained
  keys of its set only; and if \<open>ok\<close>, none of the new requests failed.
\<close>

definition search_effect ::
  "network \<Rightarrow> string set \<Rightarrow> string set \<Rightarrow> string set \<Rightarrow> bool \<Rightarrow> app \<Rightarrow> app \<Rightarrow> bool" where
  "search_effect net KI KC KA ok st st' =
     (\<exists>c new.
        st' = st\<lparr>cache := c, requests := requests st @ new\<rparr> \<and>
        set new \<subseteq> FilterByIngredient ` KI \<union> FilterByCategory ` KC \<union> FilterByArea ` KA \<and>
        fst ` set (ingredient (cache st)) \<subseteq> fst ` set (ingredient c) \<and>
        fst ` set (ingredient c) \<subseteq> fst ` set (ingredient (cache st)) \<union> KI \<and>
        fst ` set (category (cache st)) \<subseteq> fst ` set (category c) \<and>
        fst ` set (category c) \<subseteq> fst ` set (category (cache st)) \<union> KC \<and>
        fst ` set (area (cache st)) \<subseteq> fst ` set (area c) \<and>
        fst ` set (area c) \<subseteq> fst ` set (area (cache st)) \<union> KA \<and>
        (ok \<longrightarrow> (\<forall>u\<in>set new. net u \<noteq> NetworkError)))"

section \<open>The edit distance\<close>

lemma setCell_nth:
  "i < length m \<Longrightarrow> j < length (m ! i) \<Longrightarrow>
   setCell m i j v ! r ! c = (if r = i \<and> c = j then v else m ! r ! c)"
  by (simp add: setCell_def nth_list_update)

lemma setCell_row_length: "length (setCell m i j v ! r) = length (m ! r)"
proof (cases "i < length m")
  case True
  then show ?thesis by (cases "r = i") (simp_all add: setCell_def)
next
  case False
  then have "m[i := (m ! i)[j := v]] = m" by (simp add: list_update_beyond)
  then show ?thesis by (simp add: setCell_def)
qed

lemma setCell_dims: "dims m la lb \<Longrightarrow> dims (setCell m i j v) la lb"
  by (simp add: dims_def setCell_row_length) (simp add: setCell_def)

lemma initColumn_aux:
  "dims m la lb \<Longrightarrow> n \<le> Suc la \<Longrightarrow>
   dims (fold (\<lambda>i m. setCell m i 0 i) [0..<n] m) la lb \<and>
   (\<forall>r c. fold (\<lambda>i m. setCell m i 0 i) [0..<n] m ! r ! c =
      (if c = 0 \<and> r < n then r else m ! r ! c))"
proof (induction n)
  case 0
  then show ?case by simp
next
  case (Suc n)
  let ?m = "fold (\<lambda>i m. setCell m i 0 i) [0..<n] m"
  from Suc have d: "dims ?m la lb" and v: "\<forall>r c. ?m ! r ! c = (if c = 0 \<and> r < n then r else m ! r ! c)"
    by simp_all
  have n: "n < length ?m" "0 < length (?m ! n)"
    using d Suc.prems by (auto simp: dims_def)
  show ?case
    using d v n by (auto simp: setCell_dims setCell_nth)
qed

lemma initRow_aux:
  "dims m la lb \<Longrightarrow> n \<le> Suc lb \<Longrightarrow>
   dims (fold (\<lambda>j m. setCell m 0 j j) [0..<n] m) la lb \<and>
   (\<forall>r c. fold (\<lambda>j m. setCell m 0 j j) [0..<n] m ! r ! c =
      (if r = 0 \<and> c < n then c else m ! r ! c))"
proof (induction n)
  case 0
  then show ?case by simp
next
  case (Suc n)
  let ?m = "fold (\<lambda>j m. setCell m 0 j j) [0..<n] m"
  from Suc have d: "dims ?m la lb" and v: "\<forall>r c. ?m ! r ! c = (if r = 0 \<and> c < n then c else m ! r ! c)"
    by simp_all
  have n: "0 < length ?m" "n < length (?m ! 0)"
    using d Suc.prems by (auto simp: dims_def)
  show ?case
    using d v n by (auto simp: setCell_dims setCell_nth)
qed

lemma tab_init:
  "tab a b (initRow (length b) (initColumn (length a)
      (replicate (length a + 1) (replicate (length b + 1) 0)))) 1 0"
proof -
  let ?m0 = "replicate (length a + 1) (replicate (length b + 1) (0::nat))"
  have d0: "dims ?m0 (length a) (length b)"
    by (auto simp: dims_def less_Suc_eq_le simp del: replicate.simps)
  note c = initColumn_aux [OF d0 le_refl, folded initColumn_def]
  note r = initRow_aux [OF conjunct1 [OF c] le_refl, folded initRow_def]
  show ?thesis
    unfolding tab_def
  proof (intro conjI allI impI)
    show "dims (initRow (length b) (initColumn (length a) ?m0)) (length a) (length b)"
      using r by simp
  next
    fix r' c'
    assume "r' \<le> length a" "c' \<le> length b" "r' = 0 \<or> c' = 0 \<or> r' < 1 \<or> r' = 1 \<and> c' < 0"
    then have "r' = 0 \<or> c' = 0" by auto
    then show "initRow (length b) (initColumn (length a) ?m0) ! r' ! c' = lev_table a b r' c'"
      using r c \<open>r' \<le> length a\<close> \<open>c' \<le> length b\<close>
      by (cases r'; cases c') auto
  qed
qed

lemma fillCell_tab:
  assumes "tab a b m i j" "1 \<le> i" "i \<le> length a" "1 \<le> j" "j \<le> length b"
  shows "tab a b (fillCell a b i j m) i (Suc j)"
proof -
  obtain i' j' where ij: "i = Suc i'" "j = Suc j'"
    using assms by (cases i; cases j) auto
  have d: "dims m (length a) (length b)" using assms by (simp add: tab_def)
  have len: "i < length m" "j < length (m ! i)"
    using d assms by (auto simp: dims_def)
  have old: "\<And>r c. r \<le> length a \<Longrightarrow> c \<le> length b \<Longrightarrow>
      (r = 0 \<or> c = 0 \<or> r < i \<or> (r = i \<and> c < j)) \<Longrightarrow> m ! r ! c = lev_table a b r c"
    using assms(1) unfolding tab_def by blast
  have e1: "m ! i' ! j = lev_table a b i' j" using old [of i' j] assms ij by simp
  have e2: "m ! i ! j' = lev_table a b i j'" using old [of i j'] assms ij by simp
  have e3: "m ! i' ! j' = lev_table a b i' j'" using old [of i' j'] assms ij by simp
  have new: "fillCell a b i j m ! i ! j = lev_table a b i j"
    using len e1 e2 e3 by (simp add: fillCell_def setCell_nth ij Let_def)
  have other: "\<And>r c. \<not> (r = i \<and> c = j) \<Longrightarrow> fillCell a b i j m ! r ! c = m ! r ! c"
    using len by (auto simp: fillCell_def setCell_nth Let_def)
  show ?thesis
    unfolding tab_def
  proof (intro conjI allI impI)
    show "dims (fillCell a b i j m) (length a) (length b)"
      using d by (simp add: fillCell_def Let_def setCell_dims)
  next
    fix r c
    assume rc: "r \<le> length a" "c \<le> length b"
      "r = 0 \<or> c = 0 \<or> r < i \<or> r = i \<and> c < Suc j"
    show "fillCell a b i j m ! r ! c = lev_table a b r c"
    proof (cases "r = i \<and> c = j")
      case True
      then show ?thesis using new by simp
    next
      case False
      then have "r = 0 \<or> c = 0 \<or> r < i \<or> (r = i \<and> c < j)" using rc by auto
      then show ?thesis using other [OF False] old rc by simp
    qed
  qed
qed

lemma fillRow_aux:
  assumes "tab a b m i 1" "1 \<le> i" "i \<le> length a"
  shows "n \<le> length b \<Longrightarrow> tab a b (fold (fillCell a b i) [1..<Suc n] m) i (Suc n)"
proof (induction n)
  case 0
  then show ?case using assms by simp
next
  case (Suc n)
  then have "tab a b (fold (fillCell a b i) [1..<Suc n] m) i (Suc n)" by simp
  from fillCell_tab [OF this assms(2,3)] Suc.prems
  show ?case by simp
qed

lemma tab_next_row:
  assumes "tab a b m i (Suc (length b))"
  shows "tab a b m (Suc i) 1"
  unfolding tab_def
proof (intro conjI allI impI)
  show "dims m (length a) (length b)" using assms by (simp add: tab_def)
next
  fix r c
  assume rc: "r \<le> length a" "c \<le> length b" "r = 0 \<or> c = 0 \<or> r < Suc i \<or> r = Suc i \<and> c < 1"
  then have "r = 0 \<or> c = 0 \<or> r < i \<or> (r = i \<and> c < Suc (length b))" by auto
  with assms rc(1,2) show "m ! r ! c = lev_table a b r c"
    unfolding tab_def by blast
qed

lemma tab_col0: "tab a b m i 0 \<Longrightarrow> tab a b m i 1"
  unfolding tab_def by auto

lemma fillRow_tab:
  assumes "tab a b m i 1" "1 \<le> i" "i \<le> length a"
  shows "tab a b (fillRow a b i m) (Suc i) 1"
  unfolding fillRow_def
  using fillRow_aux [OF assms le_refl] by (rule tab_next_row)

lemma fillMatrix_aux:
  assumes "tab a b m 1 1"
  shows "n \<le> length a \<Longrightarrow> tab a b (fold (fillRow a b) [1..<Suc n] m) (Suc n) 1"
proof (induction n)
  case 0
  then show ?case using assms by simp
next
  case (Suc n)
  then have "tab a b (fold (fillRow a b) [1..<Suc n] m) (Suc n) 1" by simp
  from fillRow_tab [OF this] Suc.prems
  show ?case by simp
qed

lemma length_toLowerCase [simp]: "length (toLowerCase s) = length s"
  by (simp add: toLowerCase_def)

lemma toLowerCase_Nil [simp]: "(toLowerCase s = []) = (s = [])"
  by (simp add: toLowerCase_def)

lemma lev_table_0_right [simp]: "lev_table a b i 0 = i"
  by (cases i) simp_all

lemma levenshtein_table:
  "levenshtein a b = lev_table (toLowerCase a) (toLowerCase b) (length a) (length b)"
proof -
  let ?a = "toLowerCase a" and ?b = "toLowerCase b"
  let ?m = "fillMatrix ?a ?b (initRow (length ?b) (initColumn (length ?a)
      (replicate (length ?a + 1) (replicate (length ?b + 1) 0))))"
  have "tab ?a ?b ?m (Suc (length ?a)) 1"
    unfolding fillMatrix_def
    by (rule fillMatrix_aux [OF tab_col0 [OF tab_init] le_refl])
  then have "?m ! length ?a ! length ?b = lev_table ?a ?b (length ?a) (length ?b)"
    by (simp add: tab_def)
  then show ?thesis
    by (simp add: levenshtein_def Let_def)
qed

lemma lev_table_sym: "lev_table a b i j = lev_table b a j i"
proof (induction a b i j rule: lev_table.induct)
  case (3 a b i j)
  then show ?case by (simp add: min.commute min.left_commute eq_commute)
qed simp_all

lemma lev_table_diag: "lev_table a a i i = 0"
  by (induction i) simp_all

text \<open>
  C8: \<open>levenshtein\<close> is symmetric, the distance of a string to itself is 0, and with
  an empty argument the result is the length of the other string.
\<close>

theorem levenshtein_symmetric:
  "levenshtein a b = levenshtein b a \<and> levenshtein a a = 0 \<and>
   levenshtein [] b = length b \<and> levenshtein a [] = length a"
proof (intro conjI)
  show "levenshtein a b = levenshtein b a"
    by (simp add: levenshtein_table lev_table_sym [of "toLowerCase a"])
  show "levenshtein a a = 0"
    by (simp add: levenshtein_table lev_table_diag)
  show "levenshtein [] b = length b"
    by (simp add: levenshtein_def)
  show "levenshtein a [] = length a"
    by (simp add: levenshtein_def)
qed

section \<open>Lower case, trimming and containment\<close>

lemma of_char_toLowerChar:
  "(of_char (toLowerChar c) :: nat) = (if isUpperChar c then of_char c + 32 else of_char c)"
  by (auto simp: toLowerChar_def isUpperChar_def Let_def)

lemma isUpperChar_toLowerChar: "\<not> isUpperChar (toLowerChar c)"
  unfolding isUpperChar_def [of "toLowerChar c"] of_char_toLowerChar
  by (auto simp: isUpperChar_def Let_def)

lemma toLowerChar_idem: "toLowerChar (toLowerChar c) = toLowerChar c"
  using isUpperChar_toLowerChar [of c] by (simp add: toLowerChar_def [of "toLowerChar c"])

lemma toLowerCase_idem [simp]: "toLowerCase (toLowerCase s) = toLowerCase s"
  by (simp add: toLowerCase_def toLowerChar_idem)

lemma isWhiteSpace_toLowerChar [simp]: "isWhiteSpace (toLowerChar c) = isWhiteSpace c"
  unfolding isWhiteSpace_def [of "toLowerChar c"] of_char_toLowerChar
  by (auto simp: isWhiteSpace_def isUpperChar_def Let_def)

lemma toLowerChar_comma [simp]: "(toLowerChar c = CHR '','') = (c = CHR '','')"
proof -
  have "(toLowerChar c = CHR '','') = ((of_char (toLowerChar c) :: nat) = of_char (CHR '',''))"
    by (simp only: of_char_eq_iff)
  also have "\<dots> = ((of_char c :: nat) = of_char (CHR '',''))"
    unfolding of_char_toLowerChar by (auto simp: isUpperChar_def Let_def)
  also have "\<dots> = (c = CHR '','')"
    by (simp only: of_char_eq_iff)
  finally show ?thesis .
qed

lemma str_includes_sublist: "str_includes t q = sublist q t"
  by (induction t) (simp_all add: sublist_Cons_right)

lemma levenshtein_toLowerCase:
  "a \<noteq> [] \<Longrightarrow> b \<noteq> [] \<Longrightarrow> levenshtein (toLowerCase a) (toLowerCase b) = levenshtein a b"
  by (simp add: levenshtein_table)

lemma trim_Nil_iff: "(trim s = []) = (\<forall>c\<in>set s. isWhiteSpace c)"
proof
  assume "trim s = []"
  then have all: "\<forall>x\<in>set (dropWhile isWhiteSpace s). isWhiteSpace x"
    by (simp add: trim_def dropWhile_eq_Nil_conv)
  have "dropWhile isWhiteSpace s = []"
  proof (rule ccontr)
    assume ne: "dropWhile isWhiteSpace s \<noteq> []"
    then have "\<not> isWhiteSpace (hd (dropWhile isWhiteSpace s))" by (rule hd_dropWhile)
    moreover have "hd (dropWhile isWhiteSpace s) \<in> set (dropWhile isWhiteSpace s)"
      using ne by simp
    ultimately show False using all by blast
  qed
  then show "\<forall>c\<in>set s. isWhiteSpace c"
    by (simp add: dropWhile_eq_Nil_conv)
next
  assume "\<forall>c\<in>set s. isWhiteSpace c"
  then have "dropWhile isWhiteSpace s = []"
    by (simp add: dropWhile_eq_Nil_conv)
  then show "trim s = []" by (simp only: trim_def rev.simps dropWhile.simps)
qed

lemma trim_toLowerCase: "trim (toLowerCase s) = toLowerCase (trim s)"
  by (simp add: trim_def toLowerCase_def dropWhile_map rev_map comp_def)

lemma split_comma_toLowerCase:
  "split_comma (toLowerCase s) = map toLowerCase (split_comma s)"
  by (induction s) (auto simp: toLowerCase_def split: list.splits)

section \<open>The score\<close>

text \<open>
  C2 (amended): with both strings trimmed, \<open>scoreMatch\<close> is \<open>Infinity\<close> when either is
  empty; it is 0 when neither is empty and the lower-cased candidate contains the
  lower-cased query; otherwise it is the edit distance of the two trimmed strings divided
  by the larger of 1 and the length of the lower-cased trimmed candidate, the string whose
  length the code takes.
\<close>

theorem scoreMatch_cases:
  "(trim q = [] \<or> trim t = [] \<longrightarrow> scoreMatch q t = Infinity) \<and>
   (trim q \<noteq> [] \<and> trim t \<noteq> [] \<and> sublist (toLowerCase (trim q)) (toLowerCase (trim t))
      \<longrightarrow> scoreMatch q t = Finite 0) \<and>
   (trim q \<noteq> [] \<and> trim t \<noteq> [] \<and> \<not> sublist (toLowerCase (trim q)) (toLowerCase (trim t))
      \<longrightarrow> scoreMatch q t =
           Finite (of_nat (levenshtein (trim q) (trim t)) /
                   of_nat (max (length (toLowerCase (trim t))) 1)))"
  by (simp add: scoreMatch_def Let_def str_includes_sublist levenshtein_toLowerCase)

text \<open>The three cases at concrete strings.\<close>

theorem scoreMatch_cases_witness:
  "scoreMatch ''  '' ''rice'' = Infinity \<and>
   scoreMatch ''chick'' '' Chicken '' = Finite 0 \<and>
   scoreMatch ''chiken'' ''chicken'' = Finite (1 / 7)"
proof (intro conjI)
  have "trim ''  '' = [] \<or> trim ''rice'' = []" by code_simp
  with scoreMatch_cases [of "''  ''" "''rice''"]
  show "scoreMatch ''  '' ''rice'' = Infinity" by blast
next
  have "trim ''chick'' \<noteq> [] \<and> trim '' Chicken '' \<noteq> [] \<and>
        sublist (toLowerCase (trim ''chick'')) (toLowerCase (trim '' Chicken ''))"
    by code_simp
  with scoreMatch_cases [of "''chick''" "'' Chicken ''"]
  show "scoreMatch ''chick'' '' Chicken '' = Finite 0" by blast
next
  have h: "trim ''chiken'' \<noteq> [] \<and> trim ''chicken'' \<noteq> [] \<and>
        \<not> sublist (toLowerCase (trim ''chiken'')) (toLowerCase (trim ''chicken''))"
    by code_simp
  have v: "Finite (of_nat (levenshtein (trim ''chiken'') (trim ''chicken'')) /
             of_nat (max (length (toLowerCase (trim ''chicken''))) 1)) = Finite (1 / 7)"
    by code_simp
  from scoreMatch_cases [of "''chiken''" "''chicken''"] h
  have "scoreMatch ''chiken'' ''chicken'' =
        Finite (of_nat (levenshtein (trim ''chiken'') (trim ''chicken'')) /
             of_nat (max (length (toLowerCase (trim ''chicken''))) 1))" by blast
  with v show "scoreMatch ''chiken'' ''chicken'' = Finite (1 / 7)" by simp
qed

text \<open>
  On the strings as given the rule fails. Neither \<open>"ab"\<close> nor \<open>" b"\<close> is empty and the
  second does not contain the first, yet the score is 1, not 1/2: the distance is taken
  to \<open>"b"\<close>. And \<open>"a b"\<close> contains the query \<open>" "\<close>, yet the score is \<open>Infinity\<close>.
\<close>

theorem scoreMatch_raw_counterexample:
  "''ab'' \<noteq> [] \<and> '' b'' \<noteq> [] \<and> \<not> sublist (toLowerCase ''ab'') (toLowerCase '' b'') \<and>
   scoreMatch ''ab'' '' b'' = Finite 1 \<and>
   Finite (of_nat (levenshtein ''ab'' '' b'') / of_nat (max (length '' b'') 1)) = Finite (1 / 2) \<and>
   ''a b'' \<noteq> [] \<and> sublist (toLowerCase '' '') (toLowerCase ''a b'') \<and>
   scoreMatch '' '' ''a b'' = Infinity"
  by code_simp

section \<open>Live suggestions\<close>

lemma insort_key_map_pair:
  "insort_key snd (x, f x) (map (\<lambda>s. (s, f s)) ys) = map (\<lambda>s. (s, f s)) (insort_key f x ys)"
  by (induction ys) simp_all

lemma sort_key_map_pair:
  "sort_key snd (map (\<lambda>s. (s, f s)) xs) = map (\<lambda>s. (s, f s)) (sort_key f xs)"
  by (induction xs) (simp_all add: insort_key_map_pair)

lemma trim_Nil [simp]: "trim [] = []"
  by (simp add: trim_def)

lemma getSuggestions_alt:
  "getSuggestions st query =
     (if trim query = [] then []
      else take 6 (sort_key (scoreMatch query)
             (filter (\<lambda>s. isFinite (scoreMatch query s)) (buildSourceList st))))"
proof -
  have blank: "(query = [] \<or> length (trim query) < 1) = (trim query = [])"
    by auto
  show ?thesis
    unfolding getSuggestions_def blank Let_def
    by (simp add: filter_map comp_def sort_key_map_pair take_map)
qed

lemma scoreMatch_blank:
  "trim query = [] \<or> trim target = [] \<Longrightarrow> scoreMatch query target = Infinity"
  by (auto simp: scoreMatch_def Let_def)

lemma scoreMatch_finite_nonblank:
  "isFinite (scoreMatch query target) \<Longrightarrow> trim query \<noteq> [] \<and> trim target \<noteq> []"
  by (auto simp: scoreMatch_def Let_def isFinite_def split: if_splits)

text \<open>
  C10: for a query that is empty or white space only \<open>getSuggestions\<close> returns the
  empty list; \<open>scoreMatch\<close> is \<open>Infinity\<close> when the query or the candidate is empty or
  white space only; and no suggestion is empty or white space only.
\<close>

theorem getSuggestions_blank:
  "((\<forall>c\<in>set query. isWhiteSpace c) \<longrightarrow> getSuggestions st query = []) \<and>
   ((\<forall>c\<in>set query. isWhiteSpace c) \<or> (\<forall>c\<in>set target. isWhiteSpace c)
       \<longrightarrow> scoreMatch query target = Infinity) \<and>
   (\<forall>s\<in>set (getSuggestions st query). \<not> (\<forall>c\<in>set s. isWhiteSpace c))"
proof (intro conjI impI ballI)
  assume "\<forall>c\<in>set query. isWhiteSpace c"
  then show "getSuggestions st query = []"
    by (simp add: getSuggestions_alt trim_Nil_iff)
next
  assume "(\<forall>c\<in>set query. isWhiteSpace c) \<or> (\<forall>c\<in>set target. isWhiteSpace c)"
  then show "scoreMatch query target = Infinity"
    by (simp add: scoreMatch_blank trim_Nil_iff)
next
  fix s
  assume "s \<in> set (getSuggestions st query)"
  then have "isFinite (scoreMatch query s)"
    by (auto simp: getSuggestions_alt split: if_splits dest: in_set_takeD)
  then have "trim s \<noteq> []"
    by (simp add: scoreMatch_finite_nonblank)
  then show "\<not> (\<forall>c\<in>set s. isWhiteSpace c)"
    by (simp add: trim_Nil_iff)
qed

text \<open>A blank query against the initial pool, and a suggestion for \<open>"ri"\<close>.\<close>

theorem getSuggestions_blank_witness:
  "getSuggestions initial_app ''  '' = [] \<and>
   scoreMatch ''  '' ''rice'' = Infinity \<and>
   ''fried rice'' \<in> set (getSuggestions initial_app ''ri'') \<and>
   \<not> list_all isWhiteSpace ''fried rice''"
proof -
  have ws: "\<forall>c\<in>set ''  ''. isWhiteSpace c" by code_simp
  have mem: "''fried rice'' \<in> set (getSuggestions initial_app ''ri'')" by code_simp
  note t1 = getSuggestions_blank [of "''  ''" initial_app "''rice''"]
  note t2 = getSuggestions_blank [of "''ri''" initial_app "''rice''"]
  have a: "getSuggestions initial_app ''  '' = []" using t1 ws by blast
  have b: "scoreMatch ''  '' ''rice'' = Infinity" using t1 ws by blast
  have c: "\<not> (\<forall>c\<in>set ''fried rice''. isWhiteSpace c)" using t2 mem by blast
  show ?thesis using a b c mem by (simp add: list_all_iff)
qed

text \<open>
  C9: \<open>getSuggestions\<close> returns at most 6 strings, all of them from the pool
  \<open>buildSourceList\<close> and all with a finite score, in non-decreasing order of score;
  the suggestions of any one score are the first pool candidates of that score, in pool
  order.
\<close>

theorem getSuggestions_ranked:
  "length (getSuggestions st query) \<le> 6 \<and>
   set (getSuggestions st query) \<subseteq> set (buildSourceList st) \<and>
   (\<forall>s\<in>set (getSuggestions st query). isFinite (scoreMatch query s)) \<and>
   sorted (map (scoreMatch query) (getSuggestions st query)) \<and>
   (\<forall>k. prefix (filter (\<lambda>s. scoreMatch query s = k) (getSuggestions st query))
              (filter (\<lambda>s. scoreMatch query s = k) (buildSourceList st)))"
proof (cases "trim query = []")
  case True
  then show ?thesis by (simp add: getSuggestions_alt)
next
  case False
  let ?f = "scoreMatch query"
  let ?fin = "filter (\<lambda>s. isFinite (?f s)) (buildSourceList st)"
  have eq: "getSuggestions st query = take 6 (sort_key ?f ?fin)"
    using False by (simp add: getSuggestions_alt)
  have sub: "set (take 6 (sort_key ?f ?fin)) \<subseteq> set ?fin"
    using set_take_subset [of 6 "sort_key ?f ?fin"] by simp
  have srt: "sorted (map ?f (take 6 (sort_key ?f ?fin)))"
    unfolding take_map [symmetric] by (rule sorted_wrt_take) (rule sorted_sort_key)
  have stable: "prefix (filter (\<lambda>s. ?f s = k) (take 6 (sort_key ?f ?fin)))
                  (filter (\<lambda>s. ?f s = k) (buildSourceList st))" for k
  proof -
    have "prefix (filter (\<lambda>s. ?f s = k) (take 6 (sort_key ?f ?fin)))
            (filter (\<lambda>s. ?f s = k) (sort_key ?f ?fin))"
      by (rule filter_mono_prefix) (rule take_is_prefix)
    also have "filter (\<lambda>s. ?f s = k) (sort_key ?f ?fin) = filter (\<lambda>s. ?f s = k) ?fin"
      by (rule sort_key_stable)
    also have "prefix (filter (\<lambda>s. ?f s = k) ?fin) (filter (\<lambda>s. ?f s = k) (buildSourceList st))"
    proof (cases "isFinite k")
      case True
      then have "filter (\<lambda>s. ?f s = k) ?fin = filter (\<lambda>s. ?f s = k) (buildSourceList st)"
        by (auto intro: filter_cong)
      then show ?thesis by simp
    next
      case False
      then have "filter (\<lambda>s. ?f s = k) ?fin = []"
        by (auto simp: filter_empty_conv)
      then show ?thesis by simp
    qed
    finally show ?thesis .
  qed
  show ?thesis
    unfolding eq using sub srt stable by auto
qed

text \<open>The suggestions for \<open>"a"\<close> from the initial pool: four of score 0, two of score 1.\<close>

theorem getSuggestions_ranked_witness:
  "getSuggestions initial_app ''a'' = [''biryani'', ''pasta'', ''pizza'', ''salad'', ''curry'', ''fried rice''] \<and>
   length (getSuggestions initial_app ''a'') \<le> 6 \<and>
   isFinite (scoreMatch ''a'' ''salad'') \<and>
   sorted (map (scoreMatch ''a'') (getSuggestions initial_app ''a''))"
proof -
  have v: "getSuggestions initial_app ''a'' = [''biryani'', ''pasta'', ''pizza'', ''salad'', ''curry'', ''fried rice'']"
    by code_simp
  note t1 = getSuggestions_ranked [of initial_app "''a''"]
  have "''salad'' \<in> set (getSuggestions initial_app ''a'')" by (simp add: v)
  with t1 have "isFinite (scoreMatch ''a'' ''salad'')" by blast
  with t1 v show ?thesis by simp
qed

section \<open>Intersection and deduplication\<close>

lemma count_list_filter_ids:
  "count_list (map idMeal (filter (\<lambda>m. idMeal m \<in> S) xs)) i =
     (if i \<in> S then count_list (map idMeal xs) i else 0)"
  by (induction xs) auto

text \<open>
  C1 (amended): \<open>intersectById\<close> of no list is the empty list; of one list, that list;
  of two lists \<open>L1\<close> and \<open>L2\<close>, the records of \<open>L1\<close> whose id occurs in \<open>L2\<close>, in the
  order of \<open>L1\<close>. Its ids are those present in both lists, and each id appears as often
  as it does in \<open>L1\<close>: once when the ids of \<open>L1\<close> are distinct.
\<close>

theorem intersectById_lists:
  "intersectById [] = [] \<and>
   intersectById [L] = L \<and>
   intersectById [L1, L2] = filter (\<lambda>m. idMeal m \<in> idMeal ` set L2) L1 \<and>
   idMeal ` set (intersectById [L1, L2]) = idMeal ` set L1 \<inter> idMeal ` set L2 \<and>
   (\<forall>i. count_list (map idMeal (intersectById [L1, L2])) i =
        (if i \<in> idMeal ` set L2 then count_list (map idMeal L1) i else 0)) \<and>
   (distinct (map idMeal L1) \<longrightarrow> distinct (map idMeal (intersectById [L1, L2])))"
proof (intro conjI allI impI)
  show "intersectById [] = []" by simp
  show "intersectById [L] = L" by simp
  show eq: "intersectById [L1, L2] = filter (\<lambda>m. idMeal m \<in> idMeal ` set L2) L1" by simp
  show "idMeal ` set (intersectById [L1, L2]) = idMeal ` set L1 \<inter> idMeal ` set L2"
    unfolding eq by auto
  show "count_list (map idMeal (intersectById [L1, L2])) i =
        (if i \<in> idMeal ` set L2 then count_list (map idMeal L1) i else 0)" for i
    unfolding eq by (rule count_list_filter_ids)
  show "distinct (map idMeal (intersectById [L1, L2]))" if "distinct (map idMeal L1)"
    unfolding eq using that by (rule distinct_map_filter)
qed

text \<open>Two lists with distinct ids that share the ids 1 and 2.\<close>

theorem intersectById_lists_witness:
  "intersectById [[soup, stew], [stew, broth]] = [soup, stew] \<and>
   distinct (map idMeal [soup, stew]) \<and>
   distinct (map idMeal (intersectById [[soup, stew], [stew, broth]]))"
proof -
  have d: "distinct (map idMeal [soup, stew])" by code_simp
  have v: "intersectById [[soup, stew], [stew, broth]] = [soup, stew]" by code_simp
  from intersectById_lists [of "[soup, stew]" "[soup, stew]" "[stew, broth]"] d
  have "distinct (map idMeal (intersectById [[soup, stew], [stew, broth]]))" by blast
  with d v show ?thesis by simp
qed

text \<open>An id that occurs twice in the first list occurs twice in the result.\<close>

theorem intersectById_duplicate_counterexample:
  "intersectById [[soup, soup], [soup]] = [soup, soup] \<and>
   map idMeal (intersectById [[soup, soup], [soup]]) = [''1'', ''1''] \<and>
   \<not> distinct (map idMeal (intersectById [[soup, soup], [soup]]))"
  by code_simp

lemma js_map_set_keys:
  "map fst (js_map_set mp k v) = (if k \<in> set (map fst mp) then map fst mp else map fst mp @ [k])"
proof (induction mp)
  case Nil
  then show ?case by simp
next
  case (Cons p mp)
  obtain k' v' where p: "p = (k', v')" by (cases p)
  show ?case
  proof (cases "k' = k")
    case True
    then show ?thesis by (simp add: p)
  next
    case False
    then show ?thesis using Cons.IH by (simp add: p)
  qed
qed

lemma js_map_set_fresh: "k \<notin> fst ` set mp \<Longrightarrow> js_map_set mp k v = mp @ [(k, v)]"
  by (induction mp) auto

lemma js_map_set_distinct: "distinct (map fst mp) \<Longrightarrow> distinct (map fst (js_map_set mp k v))"
  by (simp add: js_map_set_keys)

lemma js_map_set_lookup:
  "map_of (js_map_set mp k v) k' = (if k' = k then Some v else map_of mp k')"
  by (induction mp) auto

lemma js_map_set_values:
  "\<forall>p\<in>set mp. idMeal (snd p) = fst p \<Longrightarrow>
   \<forall>p\<in>set (js_map_set mp (idMeal x) x). idMeal (snd p) = fst p"
proof (induction mp)
  case Nil
  then show ?case by simp
next
  case (Cons p mp)
  obtain k' v' where p: "p = (k', v')" by (cases p)
  from Cons.prems have "\<forall>p\<in>set mp. idMeal (snd p) = fst p" by simp
  then have ih: "\<forall>p\<in>set (js_map_set mp (idMeal x) x). idMeal (snd p) = fst p"
    by (rule Cons.IH)
  show ?case
  proof (cases "k' = idMeal x")
    case True
    then show ?thesis using Cons.prems by (simp add: p)
  next
    case False
    then show ?thesis using Cons.prems ih by (simp add: p)
  qed
qed

lemma dedup_fold_invariant:
  "distinct (map fst acc) \<Longrightarrow> \<forall>p\<in>set acc. idMeal (snd p) = fst p \<Longrightarrow>
   distinct (map fst (fold (\<lambda>m mp. js_map_set mp (idMeal m) m) xs acc)) \<and>
   (\<forall>p\<in>set (fold (\<lambda>m mp. js_map_set mp (idMeal m) m) xs acc). idMeal (snd p) = fst p)"
proof (induction xs arbitrary: acc)
  case Nil
  then show ?case by simp
next
  case (Cons x xs)
  show ?case
    using Cons.IH [OF js_map_set_distinct [OF Cons.prems(1)] js_map_set_values [OF Cons.prems(2)]]
    by simp
qed

lemma dedup_fold_keys:
  "set (map fst (fold (\<lambda>m mp. js_map_set mp (idMeal m) m) xs acc)) =
     set (map fst acc) \<union> idMeal ` set xs"
proof (induction xs arbitrary: acc)
  case Nil
  then show ?case by simp
next
  case (Cons x xs)
  show ?case
    unfolding fold_simps Cons.IH js_map_set_keys by auto
qed

lemma dedup_fold_distinct_input:
  "distinct (map idMeal xs) \<Longrightarrow> idMeal ` set xs \<inter> fst ` set acc = {} \<Longrightarrow>
   fold (\<lambda>m mp. js_map_set mp (idMeal m) m) xs acc = acc @ map (\<lambda>m. (idMeal m, m)) xs"
proof (induction xs arbitrary: acc)
  case Nil
  then show ?case by simp
next
  case (Cons x xs)
  have fresh: "idMeal x \<notin> fst ` set acc" using Cons.prems(2) by auto
  have "idMeal ` set xs \<inter> fst ` set (acc @ [(idMeal x, x)]) = {}"
    using Cons.prems by auto
  with Cons.IH [of "acc @ [(idMeal x, x)]"] Cons.prems(1)
  show ?case by (simp add: js_map_set_fresh [OF fresh])
qed

lemma map_snd_ids:
  "\<forall>p\<in>set mp. idMeal (snd p) = fst p \<Longrightarrow> map idMeal (map snd mp) = map fst mp"
  by (induction mp) auto

lemma dedupById_distinct: "distinct (map idMeal (dedupById xs))"
proof -
  let ?mp = "fold (\<lambda>m mp. js_map_set mp (idMeal m) m) xs []"
  have inv: "distinct (map fst ?mp) \<and> (\<forall>p\<in>set ?mp. idMeal (snd p) = fst p)"
    by (rule dedup_fold_invariant) simp_all
  then have "map idMeal (map snd ?mp) = map fst ?mp"
    by (intro map_snd_ids) simp
  with inv show ?thesis by (simp only: dedupById_def)
qed

lemma dedupById_ids: "idMeal ` set (dedupById xs) = idMeal ` set xs"
proof -
  let ?mp = "fold (\<lambda>m mp. js_map_set mp (idMeal m) m) xs []"
  have inv: "\<forall>p\<in>set ?mp. idMeal (snd p) = fst p"
    using dedup_fold_invariant [of "[]" xs] by simp
  then have "map idMeal (map snd ?mp) = map fst ?mp"
    by (rule map_snd_ids)
  then have "set (map idMeal (dedupById xs)) = set (map fst ?mp)"
    by (simp add: dedupById_def)
  then show ?thesis
    using dedup_fold_keys [of xs "[]"] by simp
qed

lemma dedupById_distinct_input: "distinct (map idMeal xs) \<Longrightarrow> dedupById xs = xs"
  by (simp add: dedupById_def dedup_fold_distinct_input comp_def)

lemma dedupById_Nil_iff [simp]: "(dedupById xs = []) = (xs = [])"
  using dedupById_ids [of xs] by (metis image_is_empty set_empty)

lemma loadTrending_distinct: "distinct (map idMeal (trending (loadTrending packs st)))"
  by (simp add: loadTrending_def Let_def dedupById_distinct)

section \<open>The cached fetch\<close>

lemma cache_store_update_same [simp]:
  "cache_store (cache_store_update c kind s) kind = s"
  by (cases kind) simp_all

lemma cache_store_update_other:
  "kind' \<noteq> kind \<Longrightarrow> cache_store (cache_store_update c kind s) kind' = cache_store c kind'"
  by (cases kind; cases kind') simp_all

lemma fetchListCached_start_hit:
  "map_of (cache_store (cache st) kind) key = Some v \<Longrightarrow>
   fetchListCached_start net kind key u st = (Done v, st)"
  by (simp add: fetchListCached_start_def)

lemma fetchListCached_start_miss:
  "map_of (cache_store (cache st) kind) key = None \<Longrightarrow>
   fetchListCached_start net kind key u st = (Awaiting (net u), st\<lparr>requests := requests st @ [u]\<rparr>)"
  by (simp add: fetchListCached_start_def fetchJSON_def)

lemma fetchListCached_hit:
  "map_of (cache_store (cache st) kind) key = Some v \<Longrightarrow>
   fetchListCached net kind key u st = (Some v, st)"
  by (simp add: fetchListCached_def fetchListCached_start_hit fetchListCached_finish_def)

lemma fetchListCached_miss_failed:
  "map_of (cache_store (cache st) kind) key = None \<Longrightarrow> net u = NetworkError \<Longrightarrow>
   fetchListCached net kind key u st = (None, st\<lparr>requests := requests st @ [u]\<rparr>)"
  by (simp add: fetchListCached_def fetchListCached_start_miss fetchListCached_finish_def)

lemma fetchListCached_miss_fetched:
  "map_of (cache_store (cache st) kind) key = None \<Longrightarrow> net u = Json data \<Longrightarrow>
   fetchListCached net kind key u st =
     (Some (case data of Some ms \<Rightarrow> ms | None \<Rightarrow> []),
      st\<lparr>requests := requests st @ [u],
         cache := cache_store_update (cache st) kind
           (js_map_set (cache_store (cache st) kind) key (case data of Some ms \<Rightarrow> ms | None \<Rightarrow> []))\<rparr>)"
  by (simp add: fetchListCached_def fetchListCached_start_miss fetchListCached_finish_def Let_def)

lemma fetchListCached_cases:
  assumes "fetchListCached net kind key u st = (r, st')"
  obtains
    (hit) v where "map_of (cache_store (cache st) kind) key = Some v" "r = Some v" "st' = st"
  | (failed) "map_of (cache_store (cache st) kind) key = None" "net u = NetworkError"
      "r = None" "st' = st\<lparr>requests := requests st @ [u]\<rparr>"
  | (fetched) data where "map_of (cache_store (cache st) kind) key = None" "net u = Json data"
      "r = Some (case data of Some ms \<Rightarrow> ms | None \<Rightarrow> [])"
      "st' = st\<lparr>requests := requests st @ [u],
         cache := cache_store_update (cache st) kind
           (js_map_set (cache_store (cache st) kind) key (case data of Some ms \<Rightarrow> ms | None \<Rightarrow> []))\<rparr>"
proof (cases "map_of (cache_store (cache st) kind) key")
  case (Some v)
  show ?thesis
    by (rule hit [OF Some]) (use assms Some in \<open>simp_all add: fetchListCached_hit\<close>)
next
  case None
  show ?thesis
  proof (cases "net u")
    case NetworkError
    show ?thesis
      by (rule failed [OF None NetworkError])
        (use assms None NetworkError in \<open>simp_all add: fetchListCached_miss_failed\<close>)
  next
    case (Json data)
    show ?thesis
      by (rule fetched [OF None Json])
        (use assms None Json in \<open>simp_all add: fetchListCached_miss_fetched\<close>)
  qed
qed

lemma js_map_set_key_set: "fst ` set (js_map_set mp k v) = insert k (fst ` set mp)"
  using js_map_set_keys [of mp k v, THEN arg_cong, of set] by (auto simp: image_iff)

text \<open>What one awaited call may change.\<close>

lemma fetchListCached_summary:
  assumes "fetchListCached net kind key u st = (r, st')"
  shows "\<exists>c new. st' = st\<lparr>cache := c, requests := requests st @ new\<rparr> \<and>
           set new \<subseteq> {u} \<and>
           (\<forall>k. k \<noteq> kind \<longrightarrow> cache_store c k = cache_store (cache st) k) \<and>
           fst ` set (cache_store c kind) \<subseteq> insert key (fst ` set (cache_store (cache st) kind)) \<and>
           fst ` set (cache_store (cache st) kind) \<subseteq> fst ` set (cache_store c kind) \<and>
           (r \<noteq> None \<longrightarrow> (\<forall>u\<in>set new. net u \<noteq> NetworkError))"
  using assms
proof (cases rule: fetchListCached_cases)
  case (hit v)
  then show ?thesis
    by (intro exI [of _ "cache st"] exI [of _ "[]"]) auto
next
  case failed
  then show ?thesis
    by (intro exI [of _ "cache st"] exI [of _ "[u]"]) auto
next
  case (fetched data)
  let ?ms = "case data of Some ms \<Rightarrow> ms | None \<Rightarrow> []"
  let ?c = "cache_store_update (cache st) kind (js_map_set (cache_store (cache st) kind) key ?ms)"
  show ?thesis
  proof (intro exI [of _ ?c] exI [of _ "[u]"] conjI allI impI)
    show "st' = st\<lparr>cache := ?c, requests := requests st @ [u]\<rparr>"
      using fetched by simp
    show "set [u] \<subseteq> {u}" by simp
    show "cache_store ?c k = cache_store (cache st) k" if "k \<noteq> kind" for k
      using that by (simp add: cache_store_update_other)
    show "fst ` set (cache_store ?c kind) \<subseteq> insert key (fst ` set (cache_store (cache st) kind))"
      by (simp add: js_map_set_key_set)
    show "fst ` set (cache_store (cache st) kind) \<subseteq> fst ` set (cache_store ?c kind)"
      by (auto simp: js_map_set_key_set)
    show "\<forall>u\<in>set [u]. net u \<noteq> NetworkError"
      using fetched by simp
  qed
qed

section \<open>What a search changes\<close>

lemma search_effect_refl: "search_effect net KI KC KA ok st st"
  unfolding search_effect_def
  by (intro exI [of _ "cache st"] exI [of _ "[]"]) simp

lemma search_effect_trans:
  assumes "search_effect net KI KC KA ok a b" "search_effect net KI' KC' KA' ok' b c"
  shows "search_effect net (KI \<union> KI') (KC \<union> KC') (KA \<union> KA') (ok \<and> ok') a c"
proof -
  from assms(1) obtain c1 n1 where
    b: "b = a\<lparr>cache := c1, requests := requests a @ n1\<rparr>" and
    u1: "set n1 \<subseteq> FilterByIngredient ` KI \<union> FilterByCategory ` KC \<union> FilterByArea ` KA" and
    k1: "fst ` set (ingredient (cache a)) \<subseteq> fst ` set (ingredient c1)"
        "fst ` set (ingredient c1) \<subseteq> fst ` set (ingredient (cache a)) \<union> KI"
        "fst ` set (category (cache a)) \<subseteq> fst ` set (category c1)"
        "fst ` set (category c1) \<subseteq> fst ` set (category (cache a)) \<union> KC"
        "fst ` set (area (cache a)) \<subseteq> fst ` set (area c1)"
        "fst ` set (area c1) \<subseteq> fst ` set (area (cache a)) \<union> KA" and
    o1: "ok \<longrightarrow> (\<forall>u\<in>set n1. net u \<noteq> NetworkError)"
    unfolding search_effect_def by (elim exE conjE) (rule that; assumption)
  from assms(2) obtain c2 n2 where
    c: "c = b\<lparr>cache := c2, requests := requests b @ n2\<rparr>" and
    u2: "set n2 \<subseteq> FilterByIngredient ` KI' \<union> FilterByCategory ` KC' \<union> FilterByArea ` KA'" and
    k2: "fst ` set (ingredient (cache b)) \<subseteq> fst ` set (ingredient c2)"
        "fst ` set (ingredient c2) \<subseteq> fst ` set (ingredient (cache b)) \<union> KI'"
        "fst ` set (category (cache b)) \<subseteq> fst ` set (category c2)"
        "fst ` set (category c2) \<subseteq> fst ` set (category (cache b)) \<union> KC'"
        "fst ` set (area (cache b)) \<subseteq> fst ` set (area c2)"
        "fst ` set (area c2) \<subseteq> fst ` set (area (cache b)) \<union> KA'" and
    o2: "ok' \<longrightarrow> (\<forall>u\<in>set n2. net u \<noteq> NetworkError)"
    unfolding search_effect_def by (elim exE conjE) (rule that; assumption)
  have cb: "cache b = c1" using b by simp
  show ?thesis
    unfolding search_effect_def
  proof (intro exI [of _ c2] exI [of _ "n1 @ n2"] conjI)
    show "c = a\<lparr>cache := c2, requests := requests a @ n1 @ n2\<rparr>"
      using b c by simp
    show "set (n1 @ n2) \<subseteq> FilterByIngredient ` (KI \<union> KI') \<union> FilterByCategory ` (KC \<union> KC') \<union>
            FilterByArea ` (KA \<union> KA')"
      using u1 u2 by auto
    show "ok \<and> ok' \<longrightarrow> (\<forall>u\<in>set (n1 @ n2). net u \<noteq> NetworkError)"
      using o1 o2 by auto
    show "fst ` set (ingredient (cache a)) \<subseteq> fst ` set (ingredient c2)"
      using k1(1) k2(1) cb by blast
    show "fst ` set (ingredient c2) \<subseteq> fst ` set (ingredient (cache a)) \<union> (KI \<union> KI')"
      using k1(2) k2(2) cb by blast
    show "fst ` set (category (cache a)) \<subseteq> fst ` set (category c2)"
      using k1(3) k2(3) cb by blast
    show "fst ` set (category c2) \<subseteq> fst ` set (category (cache a)) \<union> (KC \<union> KC')"
      using k1(4) k2(4) cb by blast
    show "fst ` set (area (cache a)) \<subseteq> fst ` set (area c2)"
      using k1(5) k2(5) cb by blast
    show "fst ` set (area c2) \<subseteq> fst ` set (area (cache a)) \<union> (KA \<union> KA')"
      using k1(6) k2(6) cb by blast
  qed
qed

lemma search_effect_weaken:
  assumes "search_effect net KI KC KA ok a b" "KI \<subseteq> KI'" "KC \<subseteq> KC'" "KA \<subseteq> KA'" "ok' \<longrightarrow> ok"
  shows "search_effect net KI' KC' KA' ok' a b"
proof -
  from assms(1) obtain c1 n1 where
    b: "b = a\<lparr>cache := c1, requests := requests a @ n1\<rparr>" and
    u1: "set n1 \<subseteq> FilterByIngredient ` KI \<union> FilterByCategory ` KC \<union> FilterByArea ` KA" and
    k1: "fst ` set (ingredient (cache a)) \<subseteq> fst ` set (ingredient c1)"
        "fst ` set (ingredient c1) \<subseteq> fst ` set (ingredient (cache a)) \<union> KI"
        "fst ` set (category (cache a)) \<subseteq> fst ` set (category c1)"
        "fst ` set (category c1) \<subseteq> fst ` set (category (cache a)) \<union> KC"
        "fst ` set (area (cache a)) \<subseteq> fst ` set (area c1)"
        "fst ` set (area c1) \<subseteq> fst ` set (area (cache a)) \<union> KA" and
    o1: "ok \<longrightarrow> (\<forall>u\<in>set n1. net u \<noteq> NetworkError)"
    unfolding search_effect_def by (elim exE conjE) (rule that; assumption)
  show ?thesis
    unfolding search_effect_def
  proof (intro exI [of _ c1] exI [of _ n1] conjI)
    show "b = a\<lparr>cache := c1, requests := requests a @ n1\<rparr>" by (rule b)
    show "set n1 \<subseteq> FilterByIngredient ` KI' \<union> FilterByCategory ` KC' \<union> FilterByArea ` KA'"
      using u1 assms(2-4) by blast
    show "ok' \<longrightarrow> (\<forall>u\<in>set n1. net u \<noteq> NetworkError)"
      using o1 assms(5) by blast
    show "fst ` set (ingredient (cache a)) \<subseteq> fst ` set (ingredient c1)" by (rule k1)
    show "fst ` set (ingredient c1) \<subseteq> fst ` set (ingredient (cache a)) \<union> KI'"
      using k1(2) assms(2) by blast
    show "fst ` set (category (cache a)) \<subseteq> fst ` set (category c1)" by (rule k1)
    show "fst ` set (category c1) \<subseteq> fst ` set (category (cache a)) \<union> KC'"
      using k1(4) assms(3) by blast
    show "fst ` set (area (cache a)) \<subseteq> fst ` set (area c1)" by (rule k1)
    show "fst ` set (area c1) \<subseteq> fst ` set (area (cache a)) \<union> KA'"
      using k1(6) assms(4) by blast
  qed
qed

lemma search_effect_step:
  assumes "search_effect net KI KC KA ok a b" "search_effect net KI' KC' KA' ok' b c"
    "KI \<union> KI' \<subseteq> KI''" "KC \<union> KC' \<subseteq> KC''" "KA \<union> KA' \<subseteq> KA''" "ok'' \<longrightarrow> ok \<and> ok'"
  shows "search_effect net KI'' KC'' KA'' ok'' a c"
  by (rule search_effect_weaken [OF search_effect_trans [OF assms(1,2)] assms(3-6)])

lemma search_effectI:
  assumes "st' = st\<lparr>cache := c, requests := requests st @ new\<rparr>"
    "set new \<subseteq> FilterByIngredient ` KI \<union> FilterByCategory ` KC \<union> FilterByArea ` KA"
    "fst ` set (ingredient (cache st)) \<subseteq> fst ` set (ingredient c)"
    "fst ` set (ingredient c) \<subseteq> fst ` set (ingredient (cache st)) \<union> KI"
    "fst ` set (category (cache st)) \<subseteq> fst ` set (category c)"
    "fst ` set (category c) \<subseteq> fst ` set (category (cache st)) \<union> KC"
    "fst ` set (area (cache st)) \<subseteq> fst ` set (area c)"
    "fst ` set (area c) \<subseteq> fst ` set (area (cache st)) \<union> KA"
    "ok \<longrightarrow> (\<forall>u\<in>set new. net u \<noteq> NetworkError)"
  shows "search_effect net KI KC KA ok st st'"
  unfolding search_effect_def
  by (intro exI [of _ c] exI [of _ new] conjI) (rule assms)+

lemma start_summary:
  assumes "fetchListCached_start net kind key u st = (p, s1)"
  shows "\<exists>new. s1 = st\<lparr>requests := requests st @ new\<rparr> \<and> set new \<subseteq> {u} \<and>
           (\<forall>x\<in>set new. p = Awaiting (net x))"
proof (cases "map_of (cache_store (cache st) kind) key")
  case None
  with assms have "s1 = st\<lparr>requests := requests st @ [u]\<rparr>" "p = Awaiting (net u)"
    by (simp_all add: fetchListCached_start_miss)
  then show ?thesis by (intro exI [of _ "[u]"]) simp
next
  case (Some v)
  with assms have "s1 = st" by (simp add: fetchListCached_start_hit)
  then show ?thesis by (intro exI [of _ "[]"]) simp
qed

lemma start_all_summary:
  "start_all net ings st = (ps, st') \<Longrightarrow>
   length ps = length ings \<and>
   (\<exists>new. st' = st\<lparr>requests := requests st @ new\<rparr> \<and>
      set new \<subseteq> (\<lambda>i. FilterByIngredient (toLowerCase i)) ` set ings \<and>
      (\<forall>u\<in>set new. Awaiting (net u) \<in> set ps))"
proof (induction ings arbitrary: st ps st')
  case Nil
  then have "st' = st" "ps = []" by simp_all
  then show ?case by (simp add: exI [of _ "[]"])
next
  case (Cons ing ings)
  let ?key = "toLowerCase ing"
  obtain p s1 where a: "fetchListCached_start net Ingredient ?key (FilterByIngredient ?key) st = (p, s1)"
    by (cases "fetchListCached_start net Ingredient ?key (FilterByIngredient ?key) st")
  obtain ps' s2 where b: "start_all net ings s1 = (ps', s2)"
    by (cases "start_all net ings s1")
  from Cons.prems a b have res: "ps = p # ps'" "st' = s2"
    by (simp_all add: Let_def)
  from start_summary [OF a] obtain n1 where
    s1: "s1 = st\<lparr>requests := requests st @ n1\<rparr>" and
    n1: "set n1 \<subseteq> {FilterByIngredient ?key}" "\<forall>x\<in>set n1. p = Awaiting (net x)"
    by (elim exE conjE) (rule that; assumption)
  from Cons.IH [OF b] obtain n2 where
    len: "length ps' = length ings" and
    s2: "s2 = s1\<lparr>requests := requests s1 @ n2\<rparr>" and
    n2: "set n2 \<subseteq> (\<lambda>i. FilterByIngredient (toLowerCase i)) ` set ings"
        "\<forall>u\<in>set n2. Awaiting (net u) \<in> set ps'"
    by (elim exE conjE) (rule that; assumption)
  have "st' = st\<lparr>requests := requests st @ (n1 @ n2)\<rparr>"
    using res s1 s2 by simp
  moreover have "set (n1 @ n2) \<subseteq> (\<lambda>i. FilterByIngredient (toLowerCase i)) ` set (ing # ings)"
    using n1(1) n2(1) by auto
  moreover have "\<forall>u\<in>set (n1 @ n2). Awaiting (net u) \<in> set ps"
    using n1(2) n2(2) res by auto
  moreover have "length ps = length (ing # ings)"
    using len res by simp
  ultimately show ?case
    by (intro conjI exI [of _ "n1 @ n2"])
qed

lemma finish_summary:
  assumes "fetchListCached_finish Ingredient key p st = (r, s1)"
  shows "\<exists>c. s1 = st\<lparr>cache := c\<rparr> \<and>
           fst ` set (ingredient (cache st)) \<subseteq> fst ` set (ingredient c) \<and>
           fst ` set (ingredient c) \<subseteq> insert key (fst ` set (ingredient (cache st))) \<and>
           category c = category (cache st) \<and> area c = area (cache st) \<and>
           (p = Awaiting NetworkError \<longrightarrow> r = None)"
proof (cases p)
  case (Done v)
  with assms have "s1 = st" by (simp add: fetchListCached_finish_def)
  then show ?thesis using Done by (intro exI [of _ "cache st"]) auto
next
  case (Awaiting resp)
  show ?thesis
  proof (cases resp)
    case NetworkError
    with assms Awaiting have "s1 = st" "r = None" by (simp_all add: fetchListCached_finish_def)
    then show ?thesis by (intro exI [of _ "cache st"]) auto
  next
    case (Json data)
    let ?ms = "case data of Some ms \<Rightarrow> ms | None \<Rightarrow> []"
    let ?c = "(cache st)\<lparr>ingredient := js_map_set (ingredient (cache st)) key ?ms\<rparr>"
    from assms Awaiting Json have "s1 = st\<lparr>cache := ?c\<rparr>"
      by (simp add: fetchListCached_finish_def Let_def)
    then show ?thesis
      using Awaiting Json by (intro exI [of _ ?c]) (auto simp: js_map_set_key_set)
  qed
qed

lemma finish_all_summary:
  "length ings = length ps \<Longrightarrow> finish_all ings ps st = (rs, st') \<Longrightarrow>
   \<exists>c. st' = st\<lparr>cache := c\<rparr> \<and>
       fst ` set (ingredient (cache st)) \<subseteq> fst ` set (ingredient c) \<and>
       fst ` set (ingredient c) \<subseteq> fst ` set (ingredient (cache st)) \<union> toLowerCase ` set ings \<and>
       category c = category (cache st) \<and> area c = area (cache st) \<and>
       (Awaiting NetworkError \<in> set ps \<longrightarrow> None \<in> set rs)"
proof (induction ings ps arbitrary: st rs st' rule: list_induct2)
  case Nil
  then have "st' = st" by simp
  then show ?case by (intro exI [of _ "cache st"]) simp
next
  case (Cons ing ings p ps)
  obtain r s1 where a: "fetchListCached_finish Ingredient (toLowerCase ing) p st = (r, s1)"
    by (cases "fetchListCached_finish Ingredient (toLowerCase ing) p st")
  obtain rs' s2 where b: "finish_all ings ps s1 = (rs', s2)"
    by (cases "finish_all ings ps s1")
  from Cons.prems a b have res: "rs = r # rs'" "st' = s2" by simp_all
  from finish_summary [OF a] obtain c1 where
    s1: "s1 = st\<lparr>cache := c1\<rparr>" and
    k1: "fst ` set (ingredient (cache st)) \<subseteq> fst ` set (ingredient c1)"
        "fst ` set (ingredient c1) \<subseteq> insert (toLowerCase ing) (fst ` set (ingredient (cache st)))"
        "category c1 = category (cache st)" "area c1 = area (cache st)" and
    f1: "p = Awaiting NetworkError \<longrightarrow> r = None"
    by (elim exE conjE) (rule that; assumption)
  from Cons.IH [OF b] obtain c2 where
    s2: "s2 = s1\<lparr>cache := c2\<rparr>" and
    k2: "fst ` set (ingredient (cache s1)) \<subseteq> fst ` set (ingredient c2)"
        "fst ` set (ingredient c2) \<subseteq> fst ` set (ingredient (cache s1)) \<union> toLowerCase ` set ings"
        "category c2 = category (cache s1)" "area c2 = area (cache s1)" and
    f2: "Awaiting NetworkError \<in> set ps \<longrightarrow> None \<in> set rs'"
    by (elim exE conjE) (rule that; assumption)
  have cs1: "cache s1 = c1" using s1 by simp
  show ?case
  proof (intro exI [of _ c2] conjI)
    show "st' = st\<lparr>cache := c2\<rparr>" using res s1 s2 by simp
    show "fst ` set (ingredient (cache st)) \<subseteq> fst ` set (ingredient c2)"
      using k1(1) k2(1) [unfolded cs1] by (rule order_trans)
    show "fst ` set (ingredient c2) \<subseteq> fst ` set (ingredient (cache st)) \<union> toLowerCase ` set (ing # ings)"
    proof -
      have "fst ` set (ingredient c2) \<subseteq>
              insert (toLowerCase ing) (fst ` set (ingredient (cache st))) \<union> toLowerCase ` set ings"
        using k1(2) k2(2) [unfolded cs1] by (meson Un_mono order_refl order_trans)
      then show ?thesis by simp
    qed
    show "category c2 = category (cache st)" using k1(3) k2(3) cs1 by simp
    show "area c2 = area (cache st)" using k1(4) k2(4) cs1 by simp
    show "Awaiting NetworkError \<in> set (p # ps) \<longrightarrow> None \<in> set rs"
      using f1 f2 res by auto
  qed
qed

lemma fetchIngredientLists_effect:
  assumes "fetchIngredientLists net ings st = (r, st')"
  shows "search_effect net (toLowerCase ` set ings) {} {} (r \<noteq> None) st st'"
proof -
  obtain ps s1 where a: "start_all net ings st = (ps, s1)"
    by (cases "start_all net ings st")
  obtain rs s2 where b: "finish_all ings ps s1 = (rs, s2)"
    by (cases "finish_all ings ps s1")
  from assms a b have res: "st' = s2" "(r \<noteq> None) = (None \<notin> set rs)"
    by (auto simp: fetchIngredientLists_def split: if_splits)
  from start_all_summary [OF a] obtain new where
    len: "length ps = length ings" and
    s1: "s1 = st\<lparr>requests := requests st @ new\<rparr>" and
    new: "set new \<subseteq> (\<lambda>i. FilterByIngredient (toLowerCase i)) ` set ings"
         "\<forall>u\<in>set new. Awaiting (net u) \<in> set ps"
    by (elim exE conjE) (rule that; assumption)
  from finish_all_summary [OF len [symmetric] b] obtain c where
    s2: "s2 = s1\<lparr>cache := c\<rparr>" and
    k: "fst ` set (ingredient (cache s1)) \<subseteq> fst ` set (ingredient c)"
       "fst ` set (ingredient c) \<subseteq> fst ` set (ingredient (cache s1)) \<union> toLowerCase ` set ings"
       "category c = category (cache s1)" "area c = area (cache s1)" and
    f: "Awaiting NetworkError \<in> set ps \<longrightarrow> None \<in> set rs"
    by (elim exE conjE) (rule that; assumption)
  have cs1: "cache s1 = cache st" using s1 by simp
  show ?thesis
  proof (rule search_effectI [where c = c and new = new])
    show "st' = st\<lparr>cache := c, requests := requests st @ new\<rparr>"
      using res s1 s2 by simp
    show "set new \<subseteq> FilterByIngredient ` toLowerCase ` set ings \<union> FilterByCategory ` {} \<union>
            FilterByArea ` {}"
      using new(1) by auto
    show "r \<noteq> None \<longrightarrow> (\<forall>u\<in>set new. net u \<noteq> NetworkError)"
      using res(2) f new(2) by metis
  qed (use k cs1 in simp_all)
qed

lemma fetchListCached_category_effect:
  assumes "fetchListCached net Category key (FilterByCategory key) st = (r, st')"
  shows "search_effect net {} {key} {} (r \<noteq> None) st st'"
proof -
  from fetchListCached_summary [OF assms] obtain c new where
    st': "st' = st\<lparr>cache := c, requests := requests st @ new\<rparr>" and
    new: "set new \<subseteq> {FilterByCategory key}" and
    other: "\<forall>k. k \<noteq> Category \<longrightarrow> cache_store c k = cache_store (cache st) k" and
    k: "fst ` set (cache_store c Category) \<subseteq> insert key (fst ` set (cache_store (cache st) Category))"
       "fst ` set (cache_store (cache st) Category) \<subseteq> fst ` set (cache_store c Category)" and
    ok: "r \<noteq> None \<longrightarrow> (\<forall>u\<in>set new. net u \<noteq> NetworkError)"
    by (elim exE conjE) (rule that; assumption)
  from other have o: "ingredient c = ingredient (cache st)" "area c = area (cache st)"
    using other [rule_format, of Ingredient] other [rule_format, of Area] by simp_all
  show ?thesis
    by (rule search_effectI [OF st' _ _ _ _ _ _ _ ok]) (use new k o in auto)
qed

lemma fetchListCached_area_effect:
  assumes "fetchListCached net Area key (FilterByArea key) st = (r, st')"
  shows "search_effect net {} {} {key} (r \<noteq> None) st st'"
proof -
  from fetchListCached_summary [OF assms] obtain c new where
    st': "st' = st\<lparr>cache := c, requests := requests st @ new\<rparr>" and
    new: "set new \<subseteq> {FilterByArea key}" and
    other: "\<forall>k. k \<noteq> Area \<longrightarrow> cache_store c k = cache_store (cache st) k" and
    k: "fst ` set (cache_store c Area) \<subseteq> insert key (fst ` set (cache_store (cache st) Area))"
       "fst ` set (cache_store (cache st) Area) \<subseteq> fst ` set (cache_store c Area)" and
    ok: "r \<noteq> None \<longrightarrow> (\<forall>u\<in>set new. net u \<noteq> NetworkError)"
    by (elim exE conjE) (rule that; assumption)
  from other have o: "ingredient c = ingredient (cache st)" "category c = category (cache st)"
    using other [rule_format, of Ingredient] other [rule_format, of Category] by simp_all
  show ?thesis
    by (rule search_effectI [OF st' _ _ _ _ _ _ _ ok]) (use new k o in auto)
qed

lemma pushIngredientLists_effect:
  assumes "pushIngredientLists net ings ls st = (r, st')"
  shows "search_effect net (toLowerCase ` set ings) {} {} (r \<noteq> None) st st'"
proof (cases "ings = []")
  case True
  with assms have "st' = st" by (simp add: pushIngredientLists_def)
  then show ?thesis by (simp add: search_effect_refl)
next
  case False
  obtain ri si where f: "fetchIngredientLists net ings st = (ri, si)"
    by (cases "fetchIngredientLists net ings st")
  with assms False have "st' = si" "(r \<noteq> None) = (ri \<noteq> None)"
    by (auto simp: pushIngredientLists_def split: option.splits)
  with fetchIngredientLists_effect [OF f] show ?thesis by simp
qed

lemma pushCategoryList_effect:
  assumes "pushCategoryList net sel ls st = (r, st')"
  shows "search_effect net {} {sel} {} (r \<noteq> None) st st'"
proof (cases "sel = []")
  case True
  with assms have "st' = st" by (simp add: pushCategoryList_def)
  then show ?thesis by (simp add: search_effect_refl)
next
  case False
  obtain ri si where f: "fetchListCached net Category sel (FilterByCategory sel) st = (ri, si)"
    by (cases "fetchListCached net Category sel (FilterByCategory sel) st")
  with assms False have "st' = si" "(r \<noteq> None) = (ri \<noteq> None)"
    by (auto simp: pushCategoryList_def split: option.splits)
  with fetchListCached_category_effect [OF f] show ?thesis by simp
qed

lemma pushAreaList_effect:
  assumes "pushAreaList net sel ls st = (r, st')"
  shows "search_effect net {} {} {sel} (r \<noteq> None) st st'"
proof (cases "sel = []")
  case True
  with assms have "st' = st" by (simp add: pushAreaList_def)
  then show ?thesis by (simp add: search_effect_refl)
next
  case False
  obtain ri si where f: "fetchListCached net Area sel (FilterByArea sel) st = (ri, si)"
    by (cases "fetchListCached net Area sel (FilterByArea sel) st")
  with assms False have "st' = si" "(r \<noteq> None) = (ri \<noteq> None)"
    by (auto simp: pushAreaList_def split: option.splits)
  with fetchListCached_area_effect [OF f] show ?thesis by simp
qed

text \<open>After the ingredient block, only category and area requests follow.\<close>

lemma gatherLists_tail:
  assumes "gatherLists net q st = (r, st')"
  shows "\<exists>r1 s1. pushIngredientLists net (parseIngredients q) [] st = (r1, s1) \<and>
           (r \<noteq> None \<longrightarrow> r1 \<noteq> None) \<and>
           search_effect net {} {selectedCategory st} {selectedArea st} (r \<noteq> None) s1 st'"
proof -
  obtain r1 s1 where p1: "pushIngredientLists net (parseIngredients q) [] st = (r1, s1)"
    by (cases "pushIngredientLists net (parseIngredients q) [] st")
  show ?thesis
  proof (cases r1)
    case None
    with assms p1 have "st' = s1" "r = None"
      by (simp_all add: gatherLists_def)
    with p1 show ?thesis by (simp add: search_effect_refl)
  next
    case (Some l1)
    obtain r2 s2 where p2: "pushCategoryList net (selectedCategory st) l1 s1 = (r2, s2)"
      by (cases "pushCategoryList net (selectedCategory st) l1 s1")
    note e2 = pushCategoryList_effect [OF p2]
    show ?thesis
    proof (cases r2)
      case None
      with assms p1 p2 Some have "st' = s2" "r = None"
        by (simp_all add: gatherLists_def)
      with p1 e2 show ?thesis
        by (auto intro: search_effect_weaken)
    next
      case (Some l2)
      with assms p1 p2 \<open>r1 = Some l1\<close>
      have p3: "pushAreaList net (selectedArea st) l2 s2 = (r, st')"
        by (simp add: gatherLists_def)
      note e3 = pushAreaList_effect [OF p3]
      have "search_effect net {} {selectedCategory st} {selectedArea st} (r \<noteq> None) s1 st'"
        by (rule search_effect_step [OF e2 e3]) (use Some in simp_all)
      with p1 \<open>r1 = Some l1\<close> show ?thesis by simp
    qed
  qed
qed

lemma gatherLists_effect:
  assumes "gatherLists net q st = (r, st')"
  shows "search_effect net (toLowerCase ` set (parseIngredients q))
           {selectedCategory st} {selectedArea st} (r \<noteq> None) st st'"
proof -
  from gatherLists_tail [OF assms] obtain r1 s1 where
    p1: "pushIngredientLists net (parseIngredients q) [] st = (r1, s1)" and
    ok: "r \<noteq> None \<longrightarrow> r1 \<noteq> None" and
    tl: "search_effect net {} {selectedCategory st} {selectedArea st} (r \<noteq> None) s1 st'"
    by (elim exE conjE) (rule that; assumption)
  show ?thesis
    by (rule search_effect_step [OF pushIngredientLists_effect [OF p1] tl]) (use ok in simp_all)
qed

lemma gatherLists_length:
  assumes "gatherLists net q st = (Some ls, st')"
  shows "length ls = (if parseIngredients q = [] then 0 else 1) +
           (if selectedCategory st = [] then 0 else 1) + (if selectedArea st = [] then 0 else 1)"
proof -
  obtain r1 s1 where p1: "pushIngredientLists net (parseIngredients q) [] st = (r1, s1)"
    by (cases "pushIngredientLists net (parseIngredients q) [] st")
  with assms obtain l1 where r1: "r1 = Some l1"
    by (cases r1) (simp_all add: gatherLists_def)
  obtain r2 s2 where p2: "pushCategoryList net (selectedCategory st) l1 s1 = (r2, s2)"
    by (cases "pushCategoryList net (selectedCategory st) l1 s1")
  with assms p1 r1 obtain l2 where r2: "r2 = Some l2"
    by (cases r2) (simp_all add: gatherLists_def)
  from assms p1 p2 r1 r2 have p3: "pushAreaList net (selectedArea st) l2 s2 = (Some ls, st')"
    by (simp add: gatherLists_def)
  have "length l1 = (if parseIngredients q = [] then 0 else 1)"
    using p1 r1 by (auto simp: pushIngredientLists_def split: if_splits prod.splits option.splits)
  moreover have "length l2 = length l1 + (if selectedCategory st = [] then 0 else 1)"
    using p2 r2 by (auto simp: pushCategoryList_def Let_def split: if_splits prod.splits option.splits)
  moreover have "length ls = length l2 + (if selectedArea st = [] then 0 else 1)"
    using p3 by (auto simp: pushAreaList_def Let_def split: if_splits prod.splits option.splits)
  ultimately show ?thesis by simp
qed

lemma beginSearch_fields [simp]:
  "cache (beginSearch st) = cache st" "requests (beginSearch st) = requests st"
  "trending (beginSearch st) = trending st" "results (beginSearch st) = results st"
  "categories (beginSearch st) = categories st" "areas (beginSearch st) = areas st"
  "selectedCategory (beginSearch st) = selectedCategory st"
  "selectedArea (beginSearch st) = selectedArea st"
  by (simp_all add: beginSearch_def)

lemma search_effect_fields:
  assumes "search_effect net KI KC KA ok st st'"
  shows "trending st' = trending st" "results st' = results st" "categories st' = categories st"
    "areas st' = areas st" "error st' = error st" "loading st' = loading st"
  using assms unfolding search_effect_def by auto

lemma handleSearch_failed_state:
  assumes "gatherLists net (queryTermOf term st) (beginSearch st) = (None, st1)"
  shows "handleSearch net term st = st1\<lparr>error := SomethingWentWrong, loading := False\<rparr>"
  using assms by (simp add: handleSearch_def)

lemma handleSearch_settled_state:
  assumes "gatherLists net (queryTermOf term st) (beginSearch st) = (Some ls, st1)"
  shows "handleSearch net term st =
     (let deduped = dedupById (mergeLists ls (trending st))
      in st1\<lparr>results := deduped,
             error := (if deduped = []
                       then noResultsMessage (buildSourceList (st1\<lparr>results := deduped\<rparr>))
                              (queryTermOf term st)
                       else NoMessage),
             loading := False\<rparr>)"
proof -
  note e = gatherLists_effect [OF assms]
  have t: "trending st1 = trending st" and er: "error st1 = NoMessage"
    using search_effect_fields [OF e] by (simp_all add: beginSearch_def)
  have "st1\<lparr>results := x\<rparr> = st1\<lparr>results := x, error := NoMessage\<rparr>" for x
    using er by (cases st1) simp
  then show ?thesis
    using assms t by (simp add: handleSearch_def Let_def)
qed

section \<open>The search\<close>

lemma handleSearch_requests_cache:
  assumes "gatherLists net (queryTermOf term st) (beginSearch st) = (r, st1)"
  shows "requests (handleSearch net term st) = requests st1"
    "cache (handleSearch net term st) = cache st1"
proof -
  show "requests (handleSearch net term st) = requests st1"
  proof (cases r)
    case None
    with assms show ?thesis by (simp add: handleSearch_failed_state)
  next
    case (Some ls)
    with assms show ?thesis by (simp add: handleSearch_settled_state Let_def)
  qed
  show "cache (handleSearch net term st) = cache st1"
  proof (cases r)
    case None
    with assms show ?thesis by (simp add: handleSearch_failed_state)
  next
    case (Some ls)
    with assms show ?thesis by (simp add: handleSearch_settled_state Let_def)
  qed
qed

text \<open>
  C7: the request log only grows; if one of the requests that a search issues fails, the
  search ends with the retry message, the result list is the one from before the
  search, and \<open>loading\<close> is off.
\<close>

theorem handleSearch_failure:
  assumes "u \<in> set (drop (length (requests st)) (requests (handleSearch net term st)))"
    and "net u = NetworkError"
  shows "take (length (requests st)) (requests (handleSearch net term st)) = requests st \<and>
         error (handleSearch net term st) = SomethingWentWrong \<and>
         results (handleSearch net term st) = results st \<and>
         loading (handleSearch net term st) = False"
proof -
  obtain r st1 where g: "gatherLists net (queryTermOf term st) (beginSearch st) = (r, st1)"
    by (cases "gatherLists net (queryTermOf term st) (beginSearch st)")
  from gatherLists_effect [OF g] obtain c new where
    st1: "st1 = (beginSearch st)\<lparr>cache := c, requests := requests (beginSearch st) @ new\<rparr>" and
    ok: "r \<noteq> None \<longrightarrow> (\<forall>u\<in>set new. net u \<noteq> NetworkError)"
    unfolding search_effect_def by (elim exE conjE) (rule that; assumption)
  have req: "requests (handleSearch net term st) = requests st @ new"
    using handleSearch_requests_cache(1) [OF g] st1 by simp
  with assms have "u \<in> set new" by simp
  with assms(2) ok have "r = None" by blast
  with g have "handleSearch net term st = st1\<lparr>error := SomethingWentWrong, loading := False\<rparr>"
    by (simp add: handleSearch_failed_state)
  then show ?thesis
    using req st1 by simp
qed

text \<open>
  Two ingredient fetches issued together, the second fails: the previous result list
  stays.
\<close>

theorem handleSearch_failure_witness:
  "FilterByIngredient ''garlic'' \<in>
     set (drop (length (requests (initial_app\<lparr>results := [stew]\<rparr>)))
       (requests (handleSearch
          (\<lambda>u. if u = FilterByIngredient ''garlic'' then NetworkError else Json (Some [soup]))
          (Some ''chicken, garlic'') (initial_app\<lparr>results := [stew]\<rparr>)))) \<and>
   error (handleSearch
          (\<lambda>u. if u = FilterByIngredient ''garlic'' then NetworkError else Json (Some [soup]))
          (Some ''chicken, garlic'') (initial_app\<lparr>results := [stew]\<rparr>)) = SomethingWentWrong \<and>
   results (handleSearch
          (\<lambda>u. if u = FilterByIngredient ''garlic'' then NetworkError else Json (Some [soup]))
          (Some ''chicken, garlic'') (initial_app\<lparr>results := [stew]\<rparr>)) = [stew]"
proof -
  let ?net = "\<lambda>u. if u = FilterByIngredient ''garlic'' then NetworkError else Json (Some [soup])"
  let ?st = "initial_app\<lparr>results := [stew]\<rparr>"
  have h1: "FilterByIngredient ''garlic'' \<in>
     set (drop (length (requests ?st)) (requests (handleSearch ?net (Some ''chicken, garlic'') ?st)))"
    by code_simp
  have h2: "?net (FilterByIngredient ''garlic'') = NetworkError" by simp
  from handleSearch_failure [of "FilterByIngredient ''garlic''" ?st ?net "Some ''chicken, garlic''", OF h1 h2] h1
  show ?thesis by simp
qed

text \<open>
  C3 (amended): when the fetches of a search succeed with the lists \<open>ls\<close>, the published
  result is the deduplication by id of: the trending list when \<open>ls\<close> is empty, the one
  list when there is one, the intersection otherwise. The ingredient terms together
  contribute one list, a selected category one, a selected area one. With no list and a
  trending list of distinct ids the result is the trending list itself, and when that
  list is not empty no message is set.
\<close>

theorem handleSearch_combine:
  assumes "gatherLists net (queryTermOf term st) (beginSearch st) = (Some ls, st1)"
  shows "results (handleSearch net term st) =
           dedupById (if ls = [] then trending st
                      else if length ls = 1 then ls ! 0
                      else intersectById ls) \<and>
         distinct (map idMeal (results (handleSearch net term st))) \<and>
         length ls = (if parseIngredients (queryTermOf term st) = [] then 0 else 1) +
           (if selectedCategory st = [] then 0 else 1) + (if selectedArea st = [] then 0 else 1) \<and>
         (ls = [] \<and> distinct (map idMeal (trending st)) \<longrightarrow>
            results (handleSearch net term st) = trending st) \<and>
         (ls = [] \<and> trending st \<noteq> [] \<longrightarrow> error (handleSearch net term st) = NoMessage)"
proof -
  note s = handleSearch_settled_state [OF assms]
  have res: "results (handleSearch net term st) = dedupById (mergeLists ls (trending st))"
    unfolding s by (simp add: Let_def)
  have err: "dedupById (mergeLists ls (trending st)) \<noteq> [] \<Longrightarrow> error (handleSearch net term st) = NoMessage"
    unfolding s by (simp add: Let_def)
  have len: "length ls = (if parseIngredients (queryTermOf term st) = [] then 0 else 1) +
           (if selectedCategory st = [] then 0 else 1) + (if selectedArea st = [] then 0 else 1)"
    using gatherLists_length [OF assms] by simp
  show ?thesis
  proof (intro conjI impI)
    show "results (handleSearch net term st) =
           dedupById (if ls = [] then trending st
                      else if length ls = 1 then ls ! 0
                      else intersectById ls)"
      unfolding res by (simp add: mergeLists_def)
    show "distinct (map idMeal (results (handleSearch net term st)))"
      unfolding res by (rule dedupById_distinct)
    show "length ls = (if parseIngredients (queryTermOf term st) = [] then 0 else 1) +
           (if selectedCategory st = [] then 0 else 1) + (if selectedArea st = [] then 0 else 1)"
      by (rule len)
    show "results (handleSearch net term st) = trending st"
      if "ls = [] \<and> distinct (map idMeal (trending st))"
      unfolding res using that by (simp add: mergeLists_def dedupById_distinct_input)
    show "error (handleSearch net term st) = NoMessage" if "ls = [] \<and> trending st \<noteq> []"
      using that by (intro err) (simp add: mergeLists_def)
  qed
qed

text \<open>No filter and two trending meals: they are the result.\<close>

theorem handleSearch_combine_witness:
  "gatherLists (\<lambda>u. NetworkError) (queryTermOf None (initial_app\<lparr>trending := [soup, stew]\<rparr>))
     (beginSearch (initial_app\<lparr>trending := [soup, stew]\<rparr>)) =
     (Some [], beginSearch (initial_app\<lparr>trending := [soup, stew]\<rparr>)) \<and>
   distinct (map idMeal [soup, stew]) \<and>
   results (handleSearch (\<lambda>u. NetworkError) None (initial_app\<lparr>trending := [soup, stew]\<rparr>)) =
     [soup, stew] \<and>
   error (handleSearch (\<lambda>u. NetworkError) None (initial_app\<lparr>trending := [soup, stew]\<rparr>)) =
     NoMessage"
proof -
  let ?st = "initial_app\<lparr>trending := [soup, stew]\<rparr>"
  have g: "gatherLists (\<lambda>u. NetworkError) (queryTermOf None ?st) (beginSearch ?st) =
     (Some [], beginSearch ?st)"
    by code_simp
  have d: "distinct (map idMeal (trending ?st))" by code_simp
  have t: "trending ?st = [soup, stew]" by simp
  have ne: "trending ?st \<noteq> []" by simp
  note c = handleSearch_combine [OF g]
  have r: "results (handleSearch (\<lambda>u. NetworkError) None ?st) = trending ?st"
    using c d by blast
  have e: "error (handleSearch (\<lambda>u. NetworkError) None ?st) = NoMessage"
    using c ne by blast
  show ?thesis
  proof (intro conjI)
    show "gatherLists (\<lambda>u. NetworkError) (queryTermOf None ?st) (beginSearch ?st) =
      (Some [], beginSearch ?st)" by (rule g)
    show "distinct (map idMeal [soup, stew])" using d by simp
    show "results (handleSearch (\<lambda>u. NetworkError) None ?st) = [soup, stew]"
      using r by simp
    show "error (handleSearch (\<lambda>u. NetworkError) None ?st) = NoMessage" by (rule e)
  qed
qed

text \<open>
  No filter and an empty trending list (the state before the trending meals have
  loaded): the result is that empty list and the search ends with the no-results
  message, not without a message.
\<close>

theorem handleSearch_empty_trending_counterexample:
  "gatherLists (\<lambda>u. NetworkError) (queryTermOf None initial_app) (beginSearch initial_app) =
     (Some [], beginSearch initial_app) \<and>
   trending initial_app = [] \<and>
   results (handleSearch (\<lambda>u. NetworkError) None initial_app) = trending initial_app \<and>
   error (handleSearch (\<lambda>u. NetworkError) None initial_app) = NoRecipesFound"
  by code_simp

section \<open>The correction after an empty result\<close>

lemma set_set_add [simp]: "set (set_add names x) = insert x (set names)"
  by (auto simp: set_add_def)

lemma set_fold_set_add:
  "set (fold (\<lambda>x names. set_add names (f x)) xs acc) = set acc \<union> f ` set xs"
  by (induction xs arbitrary: acc) auto

lemma set_buildSourceList:
  "set (buildSourceList st) =
     strMeal ` set (trending st) \<union> set (categories st) \<union> set (areas st) \<union>
     fst ` set (ingredient (cache st)) \<union>
     {''biryani'', ''pasta'', ''pizza'', ''curry'', ''salad'', ''fried rice''}"
proof -
  have pair: "(\<lambda>(k, _) names. set_add names k) = (\<lambda>p names. set_add names (fst p))"
    by (simp add: fun_eq_iff split_beta)
  show ?thesis
    unfolding buildSourceList_def Let_def pair
    unfolding set_fold_set_add set_fold_set_add [where f = "\<lambda>x. x", simplified]
    by auto
qed

lemma buildSourceList_not_Nil: "buildSourceList st \<noteq> []"
proof
  assume "buildSourceList st = []"
  then have "set (buildSourceList st) = {}" by simp
  then show False unfolding set_buildSourceList by simp
qed

lemma buildSourceList_cong:
  "trending a = trending b \<Longrightarrow> categories a = categories b \<Longrightarrow> areas a = areas b \<Longrightarrow>
   cache a = cache b \<Longrightarrow> buildSourceList a = buildSourceList b"
  by (simp add: buildSourceList_def)

lemma hd_insort_key:
  "hd (insort_key f x ys) = (if ys = [] \<or> f x \<le> f (hd ys) then x else hd ys)"
  by (cases ys) simp_all

lemma sort_key_Nil_iff [simp]: "(sort_key f xs = []) = (xs = [])"
  by (metis length_sort list.size(3) length_0_conv)

lemma hd_sort_key_first_min:
  "xs \<noteq> [] \<Longrightarrow>
   \<exists>pre post. xs = pre @ hd (sort_key f xs) # post \<and>
     (\<forall>c\<in>set pre. f (hd (sort_key f xs)) < f c) \<and>
     (\<forall>c\<in>set post. f (hd (sort_key f xs)) \<le> f c)"
proof (induction xs)
  case Nil
  then show ?case by simp
next
  case (Cons x xs)
  show ?case
  proof (cases "xs = []")
    case True
    then have "x # xs = [] @ hd (sort_key f (x # xs)) # []" by simp
    then show ?thesis by (intro exI [of _ "[]"]) simp
  next
    case False
    from Cons.IH [OF False] obtain pre post where
      xs: "xs = pre @ hd (sort_key f xs) # post" and
      pre: "\<forall>c\<in>set pre. f (hd (sort_key f xs)) < f c" and
      post: "\<forall>c\<in>set post. f (hd (sort_key f xs)) \<le> f c"
      by blast
    let ?h = "hd (sort_key f xs)"
    show ?thesis
    proof (cases "f x \<le> f ?h")
      case True
      then have h: "hd (sort_key f (x # xs)) = x"
        by (simp add: hd_insort_key)
      have "\<forall>c\<in>set xs. f x \<le> f c"
      proof
        fix c assume "c \<in> set xs"
        then have "c \<in> set pre \<or> c = ?h \<or> c \<in> set post"
          by (subst (asm) xs) auto
        then show "f x \<le> f c" using True pre post by (auto intro: order_trans less_imp_le)
      qed
      then show ?thesis
        unfolding h by (intro exI [of _ "[]"] exI [of _ xs]) simp
    next
      case False
      then have h: "hd (sort_key f (x # xs)) = ?h"
        using \<open>xs \<noteq> []\<close> by (simp add: hd_insort_key)
      have "x # xs = (x # pre) @ ?h # post"
        using xs by simp
      moreover have "\<forall>c\<in>set (x # pre). f ?h < f c"
        using False pre by auto
      ultimately show ?thesis
        unfolding h using post by blast
    qed
  qed
qed

lemma noResultsMessage_best:
  assumes "src \<noteq> []"
  shows "noResultsMessage src q =
     (if scoreMatch q (hd (sort_key (scoreMatch q) src)) < Finite (2 / 5) \<and>
         toLowerCase (hd (sort_key (scoreMatch q) src)) \<noteq> toLowerCase q
      then DidYouMean q (hd (sort_key (scoreMatch q) src))
      else NoRecipesFound)"
proof -
  from assms obtain b bs where s: "sort_key (scoreMatch q) src = b # bs"
    by (cases "sort_key (scoreMatch q) src") simp_all
  show ?thesis
    by (simp add: noResultsMessage_def Let_def sort_key_map_pair s)
qed

text \<open>
  C4: after a search that did not fail and published an empty result, let \<open>best\<close> be
  the candidate of lowest score for the raw query term in the suggestion pool, the first
  one in pool order among equals (the pool as \<open>buildSourceList\<close> gives it then, the
  ingredient keys cached by this search included). The message is the correction to
  \<open>best\<close> exactly when the score of \<open>best\<close> is below 0.4 and \<open>best\<close> and the query differ
  after lower-casing; otherwise it is the no-results message.
\<close>

theorem handleSearch_did_you_mean:
  assumes "results (handleSearch net term st) = []"
    and "error (handleSearch net term st) \<noteq> SomethingWentWrong"
  shows "\<exists>pre best post.
           buildSourceList (handleSearch net term st) = pre @ best # post \<and>
           (\<forall>c\<in>set pre. scoreMatch (queryTermOf term st) best < scoreMatch (queryTermOf term st) c) \<and>
           (\<forall>c\<in>set post. scoreMatch (queryTermOf term st) best \<le> scoreMatch (queryTermOf term st) c) \<and>
           error (handleSearch net term st) =
             (if scoreMatch (queryTermOf term st) best < Finite (2 / 5) \<and>
                 toLowerCase best \<noteq> toLowerCase (queryTermOf term st)
              then DidYouMean (queryTermOf term st) best
              else NoRecipesFound)"
proof -
  let ?q = "queryTermOf term st"
  let ?st' = "handleSearch net term st"
  obtain r st1 where g: "gatherLists net ?q (beginSearch st) = (r, st1)"
    by (cases "gatherLists net ?q (beginSearch st)")
  have "r \<noteq> None"
  proof
    assume "r = None"
    with g have "error ?st' = SomethingWentWrong"
      by (simp add: handleSearch_failed_state)
    with assms(2) show False by simp
  qed
  then obtain ls where r: "r = Some ls" by blast
  note s = handleSearch_settled_state [OF g [unfolded r]]
  have res: "results ?st' = dedupById (mergeLists ls (trending st))"
    unfolding s by (simp add: Let_def)
  with assms(1) have empty: "dedupById (mergeLists ls (trending st)) = []" by simp
  let ?src = "buildSourceList ?st'"
  have src: "buildSourceList (st1\<lparr>results := []\<rparr>) = ?src"
    by (rule buildSourceList_cong) (simp_all add: s Let_def)
  have err: "error ?st' = noResultsMessage ?src ?q"
    unfolding src [symmetric] unfolding s using empty by (simp add: Let_def dedupById_def)
  let ?best = "hd (sort_key (scoreMatch ?q) ?src)"
  from hd_sort_key_first_min [OF buildSourceList_not_Nil, where f = "scoreMatch ?q" and st1 = ?st']
  obtain pre post where
    split: "?src = pre @ ?best # post" and
    pre: "\<forall>c\<in>set pre. scoreMatch ?q ?best < scoreMatch ?q c" and
    post: "\<forall>c\<in>set post. scoreMatch ?q ?best \<le> scoreMatch ?q c"
    by (elim exE conjE) (rule that; assumption)
  have "error ?st' =
      (if scoreMatch ?q ?best < Finite (2 / 5) \<and> toLowerCase ?best \<noteq> toLowerCase ?q
       then DidYouMean ?q ?best else NoRecipesFound)"
    unfolding err by (rule noResultsMessage_best [OF buildSourceList_not_Nil])
  with split pre post show ?thesis by blast
qed

text \<open>
  The query \<open>"chick"\<close> finds nothing; the category \<open>"Chicken"\<close> contains it, comes first
  in the pool, and is offered.
\<close>

theorem handleSearch_did_you_mean_witness:
  "results (handleSearch (\<lambda>u. Json None) (Some ''chick'')
      (initial_app\<lparr>categories := [''Chicken'', ''Beef'']\<rparr>)) = [] \<and>
   error (handleSearch (\<lambda>u. Json None) (Some ''chick'')
      (initial_app\<lparr>categories := [''Chicken'', ''Beef'']\<rparr>)) = DidYouMean ''chick'' ''Chicken'' \<and>
   (\<exists>pre best post.
      buildSourceList (handleSearch (\<lambda>u. Json None) (Some ''chick'')
        (initial_app\<lparr>categories := [''Chicken'', ''Beef'']\<rparr>)) = pre @ best # post \<and>
      DidYouMean ''chick'' ''Chicken'' =
        (if scoreMatch ''chick'' best < Finite (2 / 5) \<and> toLowerCase best \<noteq> toLowerCase ''chick''
         then DidYouMean ''chick'' best else NoRecipesFound))"
proof -
  let ?st = "initial_app\<lparr>categories := [''Chicken'', ''Beef'']\<rparr>"
  let ?st' = "handleSearch (\<lambda>u. Json None) (Some ''chick'') ?st"
  have h1: "results ?st' = []" by code_simp
  have e: "error ?st' = DidYouMean ''chick'' ''Chicken''" by code_simp
  then have h2: "error ?st' \<noteq> SomethingWentWrong" by simp
  have q: "queryTermOf (Some ''chick'') ?st = ''chick''" by (simp add: queryTermOf_def)
  from handleSearch_did_you_mean [OF h1 h2] obtain pre best post where
    "buildSourceList ?st' = pre @ best # post"
    "error ?st' =
       (if scoreMatch ''chick'' best < Finite (2 / 5) \<and> toLowerCase best \<noteq> toLowerCase ''chick''
        then DidYouMean ''chick'' best else NoRecipesFound)"
    unfolding q by (elim exE conjE) (rule that; assumption)
  with h1 e show ?thesis by metis
qed

section \<open>Cache keys\<close>

lemma parseIngredients_toLowerCase:
  "parseIngredients (toLowerCase q) = map toLowerCase (parseIngredients q)"
proof -
  have "map trim (map toLowerCase xs) = map toLowerCase (map trim xs)" for xs
    by (simp add: trim_toLowerCase)
  moreover have "filter (\<lambda>s. s \<noteq> []) (map toLowerCase ys) =
      map toLowerCase (filter (\<lambda>s. s \<noteq> []) ys)" for ys
    by (simp add: filter_map comp_def)
  ultimately show ?thesis
    by (simp only: parseIngredients_def split_comma_toLowerCase)
qed

lemma start_all_cong:
  "map toLowerCase ings = map toLowerCase ings' \<Longrightarrow> start_all net ings st = start_all net ings' st"
proof (induction ings arbitrary: ings' st)
  case Nil
  then show ?case by simp
next
  case (Cons i ings)
  then obtain j js where j: "ings' = j # js" "toLowerCase i = toLowerCase j"
    "map toLowerCase ings = map toLowerCase js"
    by (cases ings') auto
  show ?case
    unfolding j(1) using Cons.IH [OF j(3)] j(2) by (simp add: Let_def)
qed

lemma finish_all_cong:
  "map toLowerCase ings = map toLowerCase ings' \<Longrightarrow>
   finish_all ings ps st = finish_all ings' ps st"
proof (induction ings arbitrary: ings' ps st)
  case Nil
  then show ?case by simp
next
  case (Cons i ings)
  then obtain j js where j: "ings' = j # js" "toLowerCase i = toLowerCase j"
    "map toLowerCase ings = map toLowerCase js"
    by (cases ings') auto
  show ?case
  proof (cases ps)
    case Nil
    then show ?thesis by (simp add: j(1))
  next
    case (Cons p ps')
    show ?thesis
      unfolding j(1) Cons using Cons.IH [OF j(3)] j(2) by simp
  qed
qed

lemma fetchIngredientLists_cong:
  "map toLowerCase ings = map toLowerCase ings' \<Longrightarrow>
   fetchIngredientLists net ings st = fetchIngredientLists net ings' st"
  by (simp add: fetchIngredientLists_def start_all_cong [of ings ings'] finish_all_cong [of ings ings'])

lemma gatherLists_cong:
  assumes "toLowerCase q = toLowerCase q'"
  shows "gatherLists net q st = gatherLists net q' st"
proof -
  have m: "map toLowerCase (parseIngredients q) = map toLowerCase (parseIngredients q')"
    using assms by (simp add: parseIngredients_toLowerCase [symmetric])
  then have e: "(parseIngredients q = []) = (parseIngredients q' = [])"
    by (metis map_is_Nil_conv)
  have "pushIngredientLists net (parseIngredients q) ls st =
        pushIngredientLists net (parseIngredients q') ls st" for ls
    using e fetchIngredientLists_cong [OF m] by (simp add: pushIngredientLists_def)
  then show ?thesis
    by (simp add: gatherLists_def)
qed

text \<open>
  C5 (amended): a search adds to the ingredient store only keys that are lower-cased
  trimmed terms of the query, and requests only those; to the category and the area store
  it adds only the selected value as it stands. Two queries that are equal after
  lower-casing lead to the same cache, the same requests and the same results.
\<close>

theorem handleSearch_cache_keys:
  "fst ` set (ingredient (cache (handleSearch net term st))) \<subseteq>
     fst ` set (ingredient (cache st)) \<union> toLowerCase ` set (parseIngredients (queryTermOf term st)) \<and>
   fst ` set (category (cache (handleSearch net term st))) \<subseteq>
     insert (selectedCategory st) (fst ` set (category (cache st))) \<and>
   fst ` set (area (cache (handleSearch net term st))) \<subseteq>
     insert (selectedArea st) (fst ` set (area (cache st))) \<and>
   set (drop (length (requests st)) (requests (handleSearch net term st))) \<subseteq>
     FilterByIngredient ` toLowerCase ` set (parseIngredients (queryTermOf term st)) \<union>
     {FilterByCategory (selectedCategory st), FilterByArea (selectedArea st)} \<and>
   (toLowerCase q = toLowerCase q' \<longrightarrow>
      cache (handleSearch net (Some q) st) = cache (handleSearch net (Some q') st) \<and>
      requests (handleSearch net (Some q) st) = requests (handleSearch net (Some q') st) \<and>
      results (handleSearch net (Some q) st) = results (handleSearch net (Some q') st))"
proof -
  obtain r st1 where g: "gatherLists net (queryTermOf term st) (beginSearch st) = (r, st1)"
    by (cases "gatherLists net (queryTermOf term st) (beginSearch st)")
  from gatherLists_effect [OF g] obtain c new where
    st1: "st1 = (beginSearch st)\<lparr>cache := c, requests := requests (beginSearch st) @ new\<rparr>" and
    new: "set new \<subseteq> FilterByIngredient ` toLowerCase ` set (parseIngredients (queryTermOf term st)) \<union>
            FilterByCategory ` {selectedCategory (beginSearch st)} \<union>
            FilterByArea ` {selectedArea (beginSearch st)}" and
    ki: "fst ` set (ingredient c) \<subseteq> fst ` set (ingredient (cache (beginSearch st))) \<union>
           toLowerCase ` set (parseIngredients (queryTermOf term st))" and
    kc: "fst ` set (category c) \<subseteq> fst ` set (category (cache (beginSearch st))) \<union>
           {selectedCategory (beginSearch st)}" and
    ka: "fst ` set (area c) \<subseteq> fst ` set (area (cache (beginSearch st))) \<union>
           {selectedArea (beginSearch st)}"
    unfolding search_effect_def by (elim exE conjE) (rule that; assumption)
  have c: "cache (handleSearch net term st) = c"
    using handleSearch_requests_cache(2) [OF g] st1 by simp
  have rq: "requests (handleSearch net term st) = requests st @ new"
    using handleSearch_requests_cache(1) [OF g] st1 by simp
  have same: "cache (handleSearch net (Some q) st) = cache (handleSearch net (Some q') st) \<and>
      requests (handleSearch net (Some q) st) = requests (handleSearch net (Some q') st) \<and>
      results (handleSearch net (Some q) st) = results (handleSearch net (Some q') st)"
    if low: "toLowerCase q = toLowerCase q'"
  proof -
    obtain r2 s2 where g2: "gatherLists net q (beginSearch st) = (r2, s2)"
      by (cases "gatherLists net q (beginSearch st)")
    then have g2': "gatherLists net q' (beginSearch st) = (r2, s2)"
      using gatherLists_cong [OF low] by simp
    have q: "queryTermOf (Some q) st = q" "queryTermOf (Some q') st = q'"
      by (simp_all add: queryTermOf_def)
    show ?thesis
    proof (cases r2)
      case None
      then show ?thesis
        using g2 g2' by (simp add: handleSearch_failed_state q)
    next
      case (Some ls)
      then show ?thesis
        using g2 g2' by (simp add: handleSearch_settled_state q Let_def)
    qed
  qed
  show ?thesis
  proof (intro conjI impI)
    show "fst ` set (ingredient (cache (handleSearch net term st))) \<subseteq>
      fst ` set (ingredient (cache st)) \<union> toLowerCase ` set (parseIngredients (queryTermOf term st))"
      unfolding c using ki by simp
    show "fst ` set (category (cache (handleSearch net term st))) \<subseteq>
      insert (selectedCategory st) (fst ` set (category (cache st)))"
      unfolding c using kc by simp
    show "fst ` set (area (cache (handleSearch net term st))) \<subseteq>
      insert (selectedArea st) (fst ` set (area (cache st)))"
      unfolding c using ka by simp
    show "set (drop (length (requests st)) (requests (handleSearch net term st))) \<subseteq>
      FilterByIngredient ` toLowerCase ` set (parseIngredients (queryTermOf term st)) \<union>
      {FilterByCategory (selectedCategory st), FilterByArea (selectedArea st)}"
      unfolding rq using new by auto
  qed (rule same [THEN conjunct1], assumption, rule same [THEN conjunct2, THEN conjunct1], assumption,
        rule same [THEN conjunct2, THEN conjunct2], assumption)
qed

text \<open>\<open>"Chicken"\<close> and \<open>"chicken"\<close>: one key, one request.\<close>

theorem handleSearch_cache_keys_witness:
  "toLowerCase ''Chicken'' = toLowerCase ''chicken'' \<and>
   cache (handleSearch (\<lambda>u. Json (Some [soup])) (Some ''Chicken'') initial_app) =
     cache (handleSearch (\<lambda>u. Json (Some [soup])) (Some ''chicken'') initial_app) \<and>
   requests (handleSearch (\<lambda>u. Json (Some [soup])) (Some ''Chicken'') initial_app) =
     [FilterByIngredient ''chicken'']"
proof -
  have h: "toLowerCase ''Chicken'' = toLowerCase ''chicken''" by code_simp
  have r: "requests (handleSearch (\<lambda>u. Json (Some [soup])) (Some ''Chicken'') initial_app) =
     [FilterByIngredient ''chicken'']" by code_simp
  from handleSearch_cache_keys [of "\<lambda>u. Json (Some [soup])" None initial_app "''Chicken''" "''chicken''"] h
  have "cache (handleSearch (\<lambda>u. Json (Some [soup])) (Some ''Chicken'') initial_app) =
     cache (handleSearch (\<lambda>u. Json (Some [soup])) (Some ''chicken'') initial_app)"
    by blast
  with h r show ?thesis by blast
qed

text \<open>
  A category is not lower-cased: after a search with \<open>"Seafood"\<close> selected, a search with
  \<open>"seafood"\<close> selected misses the cache, issues a second request, and stores a second
  entry.
\<close>

theorem category_key_case_counterexample:
  "requests (handleSearch (\<lambda>u. Json (Some [soup])) None
      ((handleSearch (\<lambda>u. Json (Some [soup])) None
          (initial_app\<lparr>selectedCategory := ''Seafood''\<rparr>))\<lparr>selectedCategory := ''seafood''\<rparr>)) =
     [FilterByCategory ''Seafood'', FilterByCategory ''seafood''] \<and>
   map fst (category (cache (handleSearch (\<lambda>u. Json (Some [soup])) None
      ((handleSearch (\<lambda>u. Json (Some [soup])) None
          (initial_app\<lparr>selectedCategory := ''Seafood''\<rparr>))\<lparr>selectedCategory := ''seafood''\<rparr>)))) =
     [''Seafood'', ''seafood'']"
  by code_simp

section \<open>Hits, misses and retries\<close>

lemma fetchIngredientLists_single:
  "fetchIngredientLists net [ing] st =
     (case fetchListCached net Ingredient (toLowerCase ing) (FilterByIngredient (toLowerCase ing)) st of
        (None, s) \<Rightarrow> (None, s)
      | (Some l, s) \<Rightarrow> (Some [l], s))"
  by (simp add: fetchIngredientLists_def fetchListCached_def Let_def
      split: prod.splits option.splits)

lemma count_list_outside: "x \<notin> set xs \<Longrightarrow> count_list xs x = 0"
  by (induction xs) auto

lemma map_of_keys: "(map_of m k \<noteq> None) = (k \<in> fst ` set m)"
  by (simp add: map_of_eq_None_iff)

text \<open>A search for one ingredient term: how often its URL is requested.\<close>

lemma single_ingredient_search:
  assumes q: "parseIngredients q = [ing]"
  shows "(map_of (ingredient (cache st)) (toLowerCase ing) = None \<longrightarrow>
            count_list (requests (handleSearch net (Some q) st)) (FilterByIngredient (toLowerCase ing)) =
              count_list (requests st) (FilterByIngredient (toLowerCase ing)) + 1 \<and>
            (net (FilterByIngredient (toLowerCase ing)) \<noteq> NetworkError \<longrightarrow>
               map_of (ingredient (cache (handleSearch net (Some q) st))) (toLowerCase ing) \<noteq> None)) \<and>
         (map_of (ingredient (cache st)) (toLowerCase ing) \<noteq> None \<longrightarrow>
            count_list (requests (handleSearch net (Some q) st)) (FilterByIngredient (toLowerCase ing)) =
              count_list (requests st) (FilterByIngredient (toLowerCase ing)))"
proof -
  let ?key = "toLowerCase ing"
  let ?u = "FilterByIngredient ?key"
  let ?st0 = "beginSearch st"
  have qt: "queryTermOf (Some q) st = q" by (simp add: queryTermOf_def)
  obtain r st1 where g: "gatherLists net q ?st0 = (r, st1)"
    by (cases "gatherLists net q ?st0")
  from gatherLists_tail [OF g] obtain r1 s1 where
    p1: "pushIngredientLists net (parseIngredients q) [] ?st0 = (r1, s1)" and
    tl: "search_effect net {} {selectedCategory ?st0} {selectedArea ?st0} (r \<noteq> None) s1 st1"
    by (elim exE conjE) (rule that; assumption)
  from tl obtain c new where
    st1: "st1 = s1\<lparr>cache := c, requests := requests s1 @ new\<rparr>" and
    new: "set new \<subseteq> FilterByIngredient ` {} \<union> FilterByCategory ` {selectedCategory ?st0} \<union>
            FilterByArea ` {selectedArea ?st0}" and
    keep: "fst ` set (ingredient (cache s1)) \<subseteq> fst ` set (ingredient c)"
    unfolding search_effect_def by (elim exE conjE) (rule that; assumption)
  have "?u \<notin> set new" using new by auto
  then have cnt: "count_list (requests st1) ?u = count_list (requests s1) ?u"
    using st1 by (simp add: count_list_outside)
  have kept: "map_of (ingredient (cache s1)) ?key \<noteq> None \<Longrightarrow> map_of (ingredient (cache st1)) ?key \<noteq> None"
    using keep st1 unfolding map_of_keys by auto
  have fin: "requests (handleSearch net (Some q) st) = requests st1"
    "cache (handleSearch net (Some q) st) = cache st1"
    using handleSearch_requests_cache [of net "Some q" st r st1] g by (simp_all add: qt)
  obtain rf sf where f: "fetchListCached net Ingredient ?key ?u ?st0 = (rf, sf)"
    by (cases "fetchListCached net Ingredient ?key ?u ?st0")
  have s1: "s1 = sf"
    using p1 f by (auto simp: q pushIngredientLists_def fetchIngredientLists_single split: option.splits)
  from f show ?thesis
  proof (cases rule: fetchListCached_cases)
    case (hit v)
    then show ?thesis
      using cnt fin s1 by simp
  next
    case failed
    then show ?thesis
      using cnt fin s1 by simp
  next
    case (fetched data)
    then have "map_of (ingredient (cache s1)) ?key \<noteq> None"
      unfolding s1 by (simp add: js_map_set_lookup)
    from kept [OF this] fetched show ?thesis
      using cnt fin s1 by simp
  qed
qed

text \<open>
  C6: on a hit \<open>fetchListCached\<close> returns the stored list and leaves the state, the
  request log included, as it is. On a miss with a successful fetch it issues one request,
  returns the fetched list and stores it under the key. On a miss with a failed fetch it
  issues one request, throws, and leaves the cache as it is, so the next call issues the
  request again. Two searches in a row for the same single ingredient, not cached before
  and fetched successfully by the first, request its URL exactly once.
\<close>

theorem fetchListCached_cache:
  "(map_of (cache_store (cache st) kind) key = Some v \<longrightarrow>
      fetchListCached net kind key u st = (Some v, st)) \<and>
   (map_of (cache_store (cache st) kind) key = None \<and> net u = Json data \<longrightarrow>
      (\<exists>st'. fetchListCached net kind key u st =
                (Some (case data of Some ms \<Rightarrow> ms | None \<Rightarrow> []), st') \<and>
             requests st' = requests st @ [u] \<and>
             map_of (cache_store (cache st') kind) key =
                Some (case data of Some ms \<Rightarrow> ms | None \<Rightarrow> []))) \<and>
   (map_of (cache_store (cache st) kind) key = None \<and> net u = NetworkError \<longrightarrow>
      (\<exists>st'. fetchListCached net kind key u st = (None, st') \<and>
             requests st' = requests st @ [u] \<and>
             cache st' = cache st \<and>
             requests (snd (fetchListCached net' kind key u st')) = requests st @ [u, u])) \<and>
   (parseIngredients q = [ing] \<and> map_of (ingredient (cache st)) (toLowerCase ing) = None \<and>
    net (FilterByIngredient (toLowerCase ing)) \<noteq> NetworkError \<longrightarrow>
      count_list (requests (handleSearch net' (Some q) (handleSearch net (Some q) st)))
          (FilterByIngredient (toLowerCase ing)) =
        count_list (requests st) (FilterByIngredient (toLowerCase ing)) + 1)"
proof (intro conjI impI)
  assume "map_of (cache_store (cache st) kind) key = Some v"
  then show "fetchListCached net kind key u st = (Some v, st)"
    by (rule fetchListCached_hit)
next
  assume a: "map_of (cache_store (cache st) kind) key = None \<and> net u = Json data"
  let ?ms = "case data of Some ms \<Rightarrow> ms | None \<Rightarrow> []"
  let ?st' = "st\<lparr>requests := requests st @ [u],
         cache := cache_store_update (cache st) kind
           (js_map_set (cache_store (cache st) kind) key ?ms)\<rparr>"
  have "fetchListCached net kind key u st = (Some ?ms, ?st')"
    using a by (simp add: fetchListCached_miss_fetched)
  moreover have "requests ?st' = requests st @ [u]" by simp
  moreover have "map_of (cache_store (cache ?st') kind) key = Some ?ms"
    by (simp add: js_map_set_lookup)
  ultimately show "\<exists>st'. fetchListCached net kind key u st = (Some ?ms, st') \<and>
             requests st' = requests st @ [u] \<and>
             map_of (cache_store (cache st') kind) key = Some ?ms"
    by blast
next
  assume a: "map_of (cache_store (cache st) kind) key = None \<and> net u = NetworkError"
  let ?st' = "st\<lparr>requests := requests st @ [u]\<rparr>"
  have 1: "fetchListCached net kind key u st = (None, ?st')"
    using a by (simp add: fetchListCached_miss_failed)
  have miss: "map_of (cache_store (cache ?st') kind) key = None"
    using a by simp
  have 2: "requests (snd (fetchListCached net' kind key u ?st')) = requests st @ [u, u]"
  proof (cases "net' u")
    case NetworkError
    then show ?thesis by (simp add: fetchListCached_miss_failed [OF miss])
  next
    case (Json d)
    then show ?thesis by (simp add: fetchListCached_miss_fetched [OF miss])
  qed
  show "\<exists>st'. fetchListCached net kind key u st = (None, st') \<and>
             requests st' = requests st @ [u] \<and>
             cache st' = cache st \<and>
             requests (snd (fetchListCached net' kind key u st')) = requests st @ [u, u]"
    by (rule exI [of _ ?st']) (use 1 2 in simp)
next
  assume a: "parseIngredients q = [ing] \<and> map_of (ingredient (cache st)) (toLowerCase ing) = None \<and>
    net (FilterByIngredient (toLowerCase ing)) \<noteq> NetworkError"
  let ?u = "FilterByIngredient (toLowerCase ing)"
  let ?st1 = "handleSearch net (Some q) st"
  from a have q: "parseIngredients q = [ing]" by simp
  note s1 = single_ingredient_search [OF q, of st net]
  have first: "count_list (requests ?st1) ?u = count_list (requests st) ?u + 1"
    using s1 a by simp
  have cached: "map_of (ingredient (cache ?st1)) (toLowerCase ing) \<noteq> None"
    using s1 a by simp
  from single_ingredient_search [OF q, of ?st1 net'] cached
  have "count_list (requests (handleSearch net' (Some q) ?st1)) ?u = count_list (requests ?st1) ?u"
    by simp
  with first show "count_list (requests (handleSearch net' (Some q) ?st1)) ?u =
      count_list (requests st) ?u + 1"
    by simp
qed

text \<open>A hit, a successful miss, a failed miss, and two searches for \<open>"chicken"\<close>.\<close>

theorem fetchListCached_cache_witness:
  "fetchListCached (\<lambda>u. NetworkError) Ingredient ''chicken'' (FilterByIngredient ''chicken'')
      (initial_app\<lparr>cache := empty_cache\<lparr>ingredient := [(''chicken'', [soup])]\<rparr>\<rparr>) =
     (Some [soup], initial_app\<lparr>cache := empty_cache\<lparr>ingredient := [(''chicken'', [soup])]\<rparr>\<rparr>) \<and>
   fst (fetchListCached (\<lambda>u. Json (Some [soup])) Ingredient ''chicken''
      (FilterByIngredient ''chicken'') initial_app) = Some [soup] \<and>
   fst (fetchListCached (\<lambda>u. NetworkError) Ingredient ''chicken''
      (FilterByIngredient ''chicken'') initial_app) = None \<and>
   count_list (requests (handleSearch (\<lambda>u. Json (Some [soup])) (Some ''chicken'')
      (handleSearch (\<lambda>u. Json (Some [soup])) (Some ''chicken'') initial_app)))
      (FilterByIngredient ''chicken'') = 1"
proof -
  let ?hit = "initial_app\<lparr>cache := empty_cache\<lparr>ingredient := [(''chicken'', [soup])]\<rparr>\<rparr>"
  let ?u = "FilterByIngredient ''chicken''"
  let ?ok = "\<lambda>u::url. Json (Some [soup])"
  let ?bad = "\<lambda>u::url. NetworkError"
  have h1: "map_of (cache_store (cache ?hit) Ingredient) ''chicken'' = Some [soup]"
    by simp
  have h2: "map_of (cache_store (cache initial_app) Ingredient) ''chicken'' = None \<and>
            ?ok ?u = Json (Some [soup])"
    by (simp add: initial_app_def empty_cache_def)
  have h3: "map_of (cache_store (cache initial_app) Ingredient) ''chicken'' = None \<and>
            ?bad ?u = NetworkError"
    by (simp add: initial_app_def empty_cache_def)
  have low: "toLowerCase ''chicken'' = ''chicken''" by code_simp
  have h4: "parseIngredients ''chicken'' = [''chicken''] \<and>
            map_of (ingredient (cache initial_app)) (toLowerCase ''chicken'') = None \<and>
            ?ok (FilterByIngredient (toLowerCase ''chicken'')) \<noteq> NetworkError"
    by code_simp
  have c0: "count_list (requests initial_app) ?u = 0"
    by (simp add: initial_app_def)
  note a = fetchListCached_cache [where st = ?hit and kind = Ingredient and key = "''chicken''"
      and v = "[soup]" and net = ?bad and u = ?u]
  note b = fetchListCached_cache [where st = initial_app and kind = Ingredient and key = "''chicken''"
      and net = ?ok and u = ?u and data = "Some [soup]" and net' = ?ok and q = "''chicken''"
      and ing = "''chicken''"]
  note c = fetchListCached_cache [where st = initial_app and kind = Ingredient and key = "''chicken''"
      and net = ?bad and u = ?u]
  have 1: "fetchListCached ?bad Ingredient ''chicken'' ?u ?hit = (Some [soup], ?hit)"
    using a h1 by blast
  have "\<exists>st'. fetchListCached ?ok Ingredient ''chicken'' ?u initial_app =
      (Some (case Some [soup] of Some ms \<Rightarrow> ms | None \<Rightarrow> []), st')"
    using b h2 by blast
  then have 2: "fst (fetchListCached ?ok Ingredient ''chicken'' ?u initial_app) = Some [soup]"
    by auto
  have "\<exists>st'. fetchListCached ?bad Ingredient ''chicken'' ?u initial_app = (None, st')"
    using c h3 by blast
  then have 3: "fst (fetchListCached ?bad Ingredient ''chicken'' ?u initial_app) = None"
    by auto
  have "count_list (requests (handleSearch ?ok (Some ''chicken'')
      (handleSearch ?ok (Some ''chicken'') initial_app))) (FilterByIngredient (toLowerCase ''chicken'')) =
      count_list (requests initial_app) (FilterByIngredient (toLowerCase ''chicken'')) + 1"
    using b h4 by blast
  then have 4: "count_list (requests (handleSearch ?ok (Some ''chicken'')
      (handleSearch ?ok (Some ''chicken'') initial_app))) ?u = 1"
    unfolding low c0 by simp
  from 1 2 3 4 show ?thesis by blast
qed

end
